theory Spec2Isabelle
  imports Complex_Main "HOL-Library.Char_ord" "HOL-Library.List_Lexorder" "HOL-Library.Multiset"
begin

section \<open>JavaScript numbers\<close>

text \<open>
  A TypeScript \<open>number\<close> is an IEEE double. The model keeps the three non-finite
  values apart from the finite ones, since the code under study divides by sizes that may
  be zero and clamps qualities that may be \<open>NaN\<close> or infinite. Finite values are
  real numbers: the rounding error of double arithmetic is not modelled, and zero is the
  positive zero (byte counts and pixel counts never are \<open>-0\<close>).
\<close>

datatype jsnum = NaN | NegInf | Fin real | PosInf

fun isNaN :: "jsnum \<Rightarrow> bool" where
  "isNaN NaN = True"
| "isNaN _ = False"

text \<open>The relational operators \<open><\<close>, \<open>>\<close>, \<open><=\<close>: false as soon as one side is \<open>NaN\<close>.\<close>

fun js_lt :: "jsnum \<Rightarrow> jsnum \<Rightarrow> bool" where
  "js_lt NaN _ = False"
| "js_lt _ NaN = False"
| "js_lt (Fin a) (Fin b) = (a < b)"
| "js_lt _ NegInf = False"
| "js_lt NegInf _ = True"
| "js_lt PosInf _ = False"
| "js_lt _ PosInf = True"



text \<open>Subtraction, multiplication and division, with the IEEE results at the infinities.\<close>

fun js_add :: "jsnum \<Rightarrow> jsnum \<Rightarrow> jsnum" where
  "js_add NaN _ = NaN"
| "js_add _ NaN = NaN"
| "js_add (Fin a) (Fin b) = Fin (a + b)"
| "js_add PosInf NegInf = NaN"
| "js_add NegInf PosInf = NaN"
| "js_add PosInf _ = PosInf"
| "js_add NegInf _ = NegInf"
| "js_add (Fin _) b = b"



fun js_div :: "jsnum \<Rightarrow> jsnum \<Rightarrow> jsnum" where
  "js_div NaN _ = NaN"
| "js_div _ NaN = NaN"
| "js_div (Fin a) (Fin b) =
     (if b \<noteq> 0 then Fin (a / b)
      else if a = 0 then NaN
      else if 0 < a then PosInf else NegInf)"
| "js_div (Fin _) _ = Fin 0"
| "js_div PosInf (Fin b) = (if 0 \<le> b then PosInf else NegInf)"
| "js_div NegInf (Fin b) = (if 0 \<le> b then NegInf else PosInf)"
| "js_div _ _ = NaN"

text \<open>\<open>Math.min\<close> and \<open>Math.max\<close> of two arguments return \<open>NaN\<close> if either is \<open>NaN\<close>.\<close>

definition Math_min :: "jsnum \<Rightarrow> jsnum \<Rightarrow> jsnum" where
  "Math_min a b = (if isNaN a \<or> isNaN b then NaN else if js_lt b a then b else a)"

definition Math_max :: "jsnum \<Rightarrow> jsnum \<Rightarrow> jsnum" where
  "Math_max a b = (if isNaN a \<or> isNaN b then NaN else if js_lt a b then b else a)"

text \<open>\<open>Math.round\<close> rounds a finite value to the nearest integer, halves upwards.\<close>

fun Math_round :: "jsnum \<Rightarrow> jsnum" where
  "Math_round (Fin x) = Fin (of_int \<lfloor>x + 1 / 2\<rfloor>)"
| "Math_round a = a"


section \<open>Compression options and quality normalisation\<close>

datatype OutputFormat = Jpeg | Png | Webp | Avif

text \<open>
  \<open>DimensionConstraints\<close> (file-helpers.ts) and \<open>CompressionOptions\<close>
  (compression.types.ts); the second has every field of the first, which the record
  extension states.
\<close>

record DimensionConstraints =
  maxWidth :: "jsnum option"
  maxHeight :: "jsnum option"
  maintainAspectRatio :: bool

record CompressionOptions = DimensionConstraints +
  quality :: jsnum
  format :: OutputFormat
  stripMetadata :: bool
  progressive :: "bool option"

text \<open>
  \<open>clampQuality\<close> of compressor.ts. Its parameter has type \<open>number\<close>, so the test
  \<open>typeof quality !== 'number'\<close> never fires and only \<open>isNaN\<close> remains.
\<close>

definition clampQuality :: "jsnum \<Rightarrow> jsnum" where
  "clampQuality q =
     (if isNaN q then Fin 70
      else Math_max (Fin 0) (Math_min (Fin 100) (Math_round q)))"

definition validateCompressionOptions :: "CompressionOptions \<Rightarrow> CompressionOptions" where
  "validateCompressionOptions options = options\<lparr>quality := clampQuality (quality options)\<rparr>"

section \<open>Dimension resolution\<close>







section \<open>Compression ratio\<close>


text \<open>
  \<open>compressImage\<close> of compression.worker.ts. The canvas and the encoder belong to the
  platform: whether a 2d context is obtained, and the byte length of the blob the encoder
  returns, are parameters. The blob itself is left out of the result.
\<close>

record WorkerData =
  originalSize :: jsnum
  compressedSize :: jsnum
  data_width :: jsnum
  data_height :: jsnum
  data_format :: OutputFormat
  compressionRatio :: jsnum



text \<open>Options used to evaluate the functions at concrete inputs.\<close>

definition noConstraints :: CompressionOptions where
  "noConstraints =
     \<lparr>maxWidth = None, maxHeight = None, maintainAspectRatio = True,
      quality = Fin 70, format = Webp, stripMetadata = True, progressive = None\<rparr>"

definition fullHD :: CompressionOptions where
  "fullHD = noConstraints\<lparr>maxWidth := Some (Fin 1920), maxHeight := Some (Fin 1080)\<rparr>"

section \<open>Processing store\<close>

text \<open>
  \<open>ProcessingQueueItem\<close> and \<open>MAX_CONCURRENT_PROCESSING\<close> of compression.types.ts.
  Times are the integer milliseconds of \<open>Date.now()\<close>.
\<close>

datatype QueueStatus = Queued | Processing | Complete | Error

record ProcessingQueueItem =
  item_id :: string
  imageId :: string
  status :: QueueStatus
  progress :: jsnum
  startTime :: "int option"
  endTime :: "int option"

definition MAX_CONCURRENT_PROCESSING :: nat where
  "MAX_CONCURRENT_PROCESSING = 4"

text \<open>
  A \<open>Partial<ProcessingQueueItem>\<close>: each field is present or absent. The spread
  \<open>{ ...item, ...updates }\<close> overwrites exactly the fields that are present.
\<close>

record QueueItemUpdates =
  upd_id :: "string option"
  upd_imageId :: "string option"
  upd_status :: "QueueStatus option"
  upd_progress :: "jsnum option"
  upd_startTime :: "int option"
  upd_endTime :: "int option"

definition applyUpdates :: "ProcessingQueueItem \<Rightarrow> QueueItemUpdates \<Rightarrow> ProcessingQueueItem" where
  "applyUpdates item updates =
     \<lparr>item_id = (case upd_id updates of None \<Rightarrow> item_id item | Some v \<Rightarrow> v),
      imageId = (case upd_imageId updates of None \<Rightarrow> imageId item | Some v \<Rightarrow> v),
      status = (case upd_status updates of None \<Rightarrow> status item | Some v \<Rightarrow> v),
      progress = (case upd_progress updates of None \<Rightarrow> progress item | Some v \<Rightarrow> v),
      startTime = (case upd_startTime updates of None \<Rightarrow> startTime item | Some v \<Rightarrow> Some v),
      endTime = (case upd_endTime updates of None \<Rightarrow> endTime item | Some v \<Rightarrow> Some v)\<rparr>"

text \<open>The state of the zustand store of processing.store.ts, and its actions.\<close>

record ProcessingStoreState =
  queue :: "ProcessingQueueItem list"
  isProcessing :: bool

definition initialStore :: ProcessingStoreState where
  "initialStore = \<lparr>queue = [], isProcessing = False\<rparr>"

definition addToQueue :: "ProcessingQueueItem list \<Rightarrow> ProcessingStoreState \<Rightarrow> ProcessingStoreState" where
  "addToQueue items state = \<lparr>queue = queue state @ items, isProcessing = True\<rparr>"

definition updateQueueItem ::
  "string \<Rightarrow> QueueItemUpdates \<Rightarrow> ProcessingStoreState \<Rightarrow> ProcessingStoreState" where
  "updateQueueItem i updates state =
     state\<lparr>queue := map (\<lambda>item. if item_id item = i then applyUpdates item updates else item)
                        (queue state)\<rparr>"

definition removeFromQueue :: "string \<Rightarrow> ProcessingStoreState \<Rightarrow> ProcessingStoreState" where
  "removeFromQueue i state =
     (let newQueue = filter (\<lambda>item. item_id item \<noteq> i) (queue state)
      in \<lparr>queue = newQueue,
          isProcessing = list_ex (\<lambda>item. status item = Queued \<or> status item = Processing) newQueue\<rparr>)"

definition clearQueue :: "ProcessingStoreState \<Rightarrow> ProcessingStoreState" where
  "clearQueue state = \<lparr>queue = [], isProcessing = False\<rparr>"

definition getProcessingCount :: "ProcessingStoreState \<Rightarrow> nat" where
  "getProcessingCount state = length (filter (\<lambda>item. status item = Processing) (queue state))"

definition canStartProcessing :: "ProcessingStoreState \<Rightarrow> bool" where
  "canStartProcessing state = (getProcessingCount state < MAX_CONCURRENT_PROCESSING)"

text \<open>
  \<open>startProcessing\<close> returns its boolean and the state it leaves; \<open>now\<close> is the value
  of \<open>Date.now()\<close> at the call.
\<close>

definition startProcessing :: "int \<Rightarrow> string \<Rightarrow> ProcessingStoreState \<Rightarrow> bool \<times> ProcessingStoreState" where
  "startProcessing now i state =
     (let processingCount = getProcessingCount state
      in if processingCount \<ge> MAX_CONCURRENT_PROCESSING then (False, state)
         else
           case find (\<lambda>item. item_id item = i) (queue state) of
             None \<Rightarrow> (False, state)
           | Some item \<Rightarrow>
               if status item \<noteq> Queued then (False, state)
               else (True,
                     state\<lparr>queue := map (\<lambda>item. if item_id item = i
                                                 then item\<lparr>status := Processing, startTime := Some now\<rparr>
                                                 else item)
                                        (queue state)\<rparr>))"

text \<open>Sequences of store actions, run from left to right.\<close>

datatype StoreOp =
    AddToQueue "ProcessingQueueItem list"
  | UpdateQueueItem string QueueItemUpdates
  | RemoveFromQueue string
  | ClearQueue
  | StartProcessing int string

fun applyOp :: "StoreOp \<Rightarrow> ProcessingStoreState \<Rightarrow> ProcessingStoreState" where
  "applyOp (AddToQueue items) state = addToQueue items state"
| "applyOp (UpdateQueueItem i updates) state = updateQueueItem i updates state"
| "applyOp (RemoveFromQueue i) state = removeFromQueue i state"
| "applyOp ClearQueue state = clearQueue state"
| "applyOp (StartProcessing now i) state = snd (startProcessing now i state)"

fun runOps :: "StoreOp list \<Rightarrow> ProcessingStoreState \<Rightarrow> ProcessingStoreState" where
  "runOps [] state = state"
| "runOps (op # ops) state = runOps ops (applyOp op state)"

text \<open>
  The sequences for which the cap is proved: what is added is not yet \<open>processing\<close> and
  keeps the ids of the queue pairwise distinct, and an update neither sets the status
  \<open>processing\<close> (the store's way into that status is \<open>startProcessing\<close>) nor renames an
  item.
\<close>

fun opAdmissible :: "StoreOp \<Rightarrow> ProcessingStoreState \<Rightarrow> bool" where
  "opAdmissible (AddToQueue items) state =
     (list_all (\<lambda>item. status item \<noteq> Processing) items
      \<and> distinct (map item_id (queue state @ items)))"
| "opAdmissible (UpdateQueueItem i updates) state =
     (upd_status updates \<noteq> Some Processing \<and> upd_id updates = None)"
| "opAdmissible _ state = True"

fun opsAdmissible :: "StoreOp list \<Rightarrow> ProcessingStoreState \<Rightarrow> bool" where
  "opsAdmissible [] state = True"
| "opsAdmissible (op # ops) state = (opAdmissible op state \<and> opsAdmissible ops (applyOp op state))"

text \<open>A queued item with the given id, and the attempt to start every item of a list.\<close>

definition queuedItem :: "string \<Rightarrow> ProcessingQueueItem" where
  "queuedItem i = \<lparr>item_id = i, imageId = i, status = Queued, progress = Fin 0,
                   startTime = None, endTime = None\<rparr>"

definition startAll :: "int \<Rightarrow> ProcessingQueueItem list \<Rightarrow> StoreOp list" where
  "startAll now items = map (\<lambda>item. StartProcessing now (item_id item)) items"

text \<open>The number of positions at which two queues of the same length differ.\<close>

definition changedItems :: "ProcessingQueueItem list \<Rightarrow> ProcessingQueueItem list \<Rightarrow> nat" where
  "changedItems q q' = length (filter (\<lambda>(a, b). a \<noteq> b) (zip q q'))"

text \<open>Concrete stores and action sequences at which the store is evaluated.\<close>

definition twoQueued :: ProcessingStoreState where
  "twoQueued = \<lparr>queue = [queuedItem ''a'', queuedItem ''b''], isProcessing = True\<rparr>"

definition duplicateIds :: ProcessingStoreState where
  "duplicateIds =
     \<lparr>queue = [queuedItem ''a'', (queuedItem ''a'')\<lparr>status := Complete\<rparr>], isProcessing = True\<rparr>"

definition twentyItems :: "ProcessingQueueItem list" where
  "twentyItems = map queuedItem
     [''i01'', ''i02'', ''i03'', ''i04'', ''i05'', ''i06'', ''i07'', ''i08'', ''i09'', ''i10'',
      ''i11'', ''i12'', ''i13'', ''i14'', ''i15'', ''i16'', ''i17'', ''i18'', ''i19'', ''i20'']"

definition completed :: QueueItemUpdates where
  "completed = \<lparr>upd_id = None, upd_imageId = None, upd_status = Some Complete,
                upd_progress = Some (Fin 100), upd_startTime = None, upd_endTime = Some 9\<rparr>"

definition sampleOps :: "StoreOp list" where
  "sampleOps =
     [AddToQueue (map queuedItem [''a'', ''b'', ''c'', ''d'', ''e'', ''f'']),
      StartProcessing 1 ''a'', StartProcessing 2 ''b'', StartProcessing 3 ''c'',
      StartProcessing 4 ''d'', StartProcessing 5 ''e'',
      UpdateQueueItem ''a'' completed, StartProcessing 6 ''e'', StartProcessing 7 ''f'',
      RemoveFromQueue ''b'', AddToQueue [queuedItem ''g''], StartProcessing 8 ''g'',
      ClearQueue]"

definition sameIdOps :: "StoreOp list" where
  "sameIdOps = [AddToQueue [queuedItem ''a'', queuedItem ''a'', queuedItem ''a'', queuedItem ''a'',
                            queuedItem ''a''], StartProcessing 1 ''a'']"

section \<open>History store\<close>

text \<open>
  \<open>CompressionHistoryEntry\<close> of settings.types.ts. The timestamp is the integer
  millisecond count of \<open>Date.now()\<close>.
\<close>

record CompressionHistoryEntry =
  entry_id :: string
  timestamp :: int
  originalName :: string
  entry_originalSize :: jsnum
  entry_compressedSize :: jsnum
  entry_format :: OutputFormat
  entry_quality :: jsnum

definition MAX_HISTORY_ENTRIES :: nat where
  "MAX_HISTORY_ENTRIES = 100"

text \<open>
  The IndexedDB object store \<open>compression-history\<close> has the key path \<open>id\<close> and a
  non-unique index on \<open>timestamp\<close>. Its content is the list of its records. A cursor
  on the index visits the records by ascending timestamp, records of one timestamp by
  ascending primary key; string keys compare lexicographically by code unit.
  \<open>timestampIndex\<close> is that sequence, built by insertion.
\<close>

type_synonym HistoryStore = "CompressionHistoryEntry list"

definition indexBefore :: "CompressionHistoryEntry \<Rightarrow> CompressionHistoryEntry \<Rightarrow> bool" where
  "indexBefore a b =
     (timestamp a < timestamp b \<or> (timestamp a = timestamp b \<and> entry_id a \<le> entry_id b))"

fun indexInsert :: "CompressionHistoryEntry \<Rightarrow> CompressionHistoryEntry list \<Rightarrow> CompressionHistoryEntry list" where
  "indexInsert e [] = [e]"
| "indexInsert e (x # xs) = (if indexBefore e x then e # x # xs else x # indexInsert e xs)"

definition timestampIndex :: "HistoryStore \<Rightarrow> CompressionHistoryEntry list" where
  "timestampIndex store = foldr indexInsert store []"

text \<open>
  \<open>store.delete(key)\<close> removes the record of that key. \<open>store.add(entry)\<close> fails
  with a constraint error if a record of the entry's key exists.
\<close>

definition store_delete :: "string \<Rightarrow> HistoryStore \<Rightarrow> HistoryStore" where
  "store_delete key store = filter (\<lambda>e. entry_id e \<noteq> key) store"

definition store_add :: "CompressionHistoryEntry \<Rightarrow> HistoryStore \<Rightarrow> HistoryStore option" where
  "store_add entry store =
     (if entry_id entry \<in> set (map entry_id store) then None else Some (store @ [entry]))"

text \<open>
  The cursor loop of \<open>addHistoryEntry\<close>: while the cursor has a record and
  \<open>deleted < entriesToDelete\<close>, delete the record under the cursor and continue.
\<close>

fun evictOldest ::
  "CompressionHistoryEntry list \<Rightarrow> nat \<Rightarrow> nat \<Rightarrow> HistoryStore \<Rightarrow> HistoryStore" where
  "evictOldest [] deleted entriesToDelete store = store"
| "evictOldest (c # cursor) deleted entriesToDelete store =
     (if deleted < entriesToDelete
      then evictOldest cursor (deleted + 1) entriesToDelete (store_delete (entry_id c) store)
      else store)"

text \<open>
  \<open>addHistoryEntry\<close> of indexed-db.ts, for a database that opens and whose count and
  cursor requests succeed. The result is the outcome of the promise (\<open>Inr True\<close> for
  \<open>resolve(true)\<close>, \<open>Inl\<close> the message of the rejection) and the store after the
  transaction. A failed \<open>add\<close> request aborts the transaction, since its error handler
  does not prevent the default, so the deletions made before it are rolled back.
\<close>

definition addHistoryEntry ::
  "CompressionHistoryEntry \<Rightarrow> HistoryStore \<Rightarrow> (string + bool) \<times> HistoryStore" where
  "addHistoryEntry entry store =
     (let count = length store;
          evicted =
            (if count \<ge> MAX_HISTORY_ENTRIES
             then let entriesToDelete = count - MAX_HISTORY_ENTRIES + 1
                  in evictOldest (timestampIndex store) 0 entriesToDelete store
             else store)
      in case store_add entry evicted of
           None \<Rightarrow> (Inl ''Failed to add history entry'', store)
         | Some store' \<Rightarrow> (Inr True, store'))"

text \<open>\<open>getHistoryEntries\<close>: the cursor runs over the index in direction \<open>prev\<close>.\<close>

definition getHistoryEntries :: "HistoryStore \<Rightarrow> CompressionHistoryEntry list" where
  "getHistoryEntries store = rev (timestampIndex store)"

definition getHistoryEntry :: "string \<Rightarrow> HistoryStore \<Rightarrow> CompressionHistoryEntry option" where
  "getHistoryEntry key store = find (\<lambda>e. entry_id e = key) store"

definition getHistoryCount :: "HistoryStore \<Rightarrow> nat" where
  "getHistoryCount store = length store"

text \<open>A sequence of \<open>addHistoryEntry\<close> calls, each awaited before the next.\<close>

fun addAll :: "CompressionHistoryEntry list \<Rightarrow> HistoryStore \<Rightarrow> HistoryStore" where
  "addAll [] store = store"
| "addAll (e # es) store = addAll es (snd (addHistoryEntry e store))"

text \<open>Entries for evaluation: entry \<open>n\<close> has a two-digit id and the timestamp \<open>n\<close>.\<close>

definition digit :: "nat \<Rightarrow> char" where
  "digit n = ''0123456789'' ! n"

definition historyEntry :: "string \<Rightarrow> int \<Rightarrow> CompressionHistoryEntry" where
  "historyEntry i t =
     \<lparr>entry_id = i, timestamp = t, originalName = ''test-image.jpg'',
      entry_originalSize = Fin 1048576, entry_compressedSize = Fin 524288,
      entry_format = Webp, entry_quality = Fin 70\<rparr>"

definition numberedEntry :: "nat \<Rightarrow> CompressionHistoryEntry" where
  "numberedEntry n = historyEntry [digit (n div 10), digit (n mod 10)] (int n)"

definition hundredEntries :: "CompressionHistoryEntry list" where
  "hundredEntries = map numberedEntry [0..<100]"

section \<open>Batch processing hook\<close>

text \<open>
  The image store of images.store.ts, as far as the hook uses it. An \<open>ImageFile\<close>
  also carries its \<open>File\<close> and a preview URL, which no function below reads.
\<close>

datatype ImageStatus = ImagePending | ImageProcessing | ImageComplete | ImageError

record ImageFile =
  image_id :: string
  image_status :: ImageStatus
  compressed :: "WorkerData option"
  image_error :: "string option"

definition updateStatus :: "string \<Rightarrow> ImageStatus \<Rightarrow> ImageFile list \<Rightarrow> ImageFile list" where
  "updateStatus i st imgs = map (\<lambda>img. if image_id img = i then img\<lparr>image_status := st\<rparr> else img) imgs"

definition updateCompressed :: "string \<Rightarrow> WorkerData \<Rightarrow> ImageFile list \<Rightarrow> ImageFile list" where
  "updateCompressed i result imgs =
     map (\<lambda>img. if image_id img = i
                 then img\<lparr>compressed := Some result, image_status := ImageComplete\<rparr> else img) imgs"

definition setImageError :: "string \<Rightarrow> string \<Rightarrow> ImageFile list \<Rightarrow> ImageFile list" where
  "setImageError i msg imgs =
     map (\<lambda>img. if image_id img = i
                 then img\<lparr>image_error := Some msg, image_status := ImageError\<rparr> else img) imgs"

text \<open>
  The state of \<open>useBatchProcessing\<close>: its five React states, its refs, and the two
  stores it writes. \<open>individualProgress\<close> is a JavaScript \<open>Map\<close>, kept as the list
  of its entries in insertion order. A worker of the pool is its \<open>busy\<close> flag, its
  \<open>currentImageId\<close>, and the image id that the installed \<open>onmessage\<close> handler
  closes over (\<open>None\<close> for \<open>null\<close>). \<open>abortController\<close> is \<open>None\<close> for a
  \<open>null\<close> ref and otherwise the \<open>aborted\<close> flag of the signal. The pending queue
  holds image ids; the file of each is the one of the image.
\<close>

record BatchProcessingProgress =
  bp_imageId :: string
  bp_progress :: jsnum
  bp_status :: QueueStatus

record WorkerInstance =
  busy :: bool
  currentImageId :: "string option"
  onmessage :: "string option"

record BatchState =
  batch_isProcessing :: bool
  individualProgress :: "(string \<times> BatchProcessingProgress) list"
  completedCount :: nat
  totalCount :: nat
  batch_error :: "string option"
  workerPool :: "WorkerInstance list"
  abortController :: "bool option"
  pendingQueue :: "string list"
  optionsRef :: "CompressionOptions option"
  processingStore :: ProcessingStoreState
  images :: "ImageFile list"

definition initialBatch :: "ImageFile list \<Rightarrow> BatchState" where
  "initialBatch imgs =
     \<lparr>batch_isProcessing = False, individualProgress = [], completedCount = 0, totalCount = 0,
      batch_error = None, workerPool = [], abortController = None, pendingQueue = [],
      optionsRef = None, processingStore = initialStore, images = imgs\<rparr>"

text \<open>\<open>Map.prototype.set\<close>: an existing key keeps its place, a new key goes last.\<close>

fun mapSet :: "string \<Rightarrow> 'v \<Rightarrow> (string \<times> 'v) list \<Rightarrow> (string \<times> 'v) list" where
  "mapSet k v [] = [(k, v)]"
| "mapSet k v ((k', v') # m) = (if k' = k then (k, v) # m else (k', v') # mapSet k v m)"

definition noUpdates :: QueueItemUpdates where
  "noUpdates = \<lparr>upd_id = None, upd_imageId = None, upd_status = None, upd_progress = None,
                upd_startTime = None, upd_endTime = None\<rparr>"

definition idleWorker :: WorkerInstance where
  "idleWorker = \<lparr>busy = False, currentImageId = None, onmessage = None\<rparr>"

text \<open>\<open>initializeWorkerPool\<close> and \<open>getAvailableWorker\<close> (the position of the first idle worker).\<close>

definition initializeWorkerPool :: "BatchState \<Rightarrow> BatchState" where
  "initializeWorkerPool s = s\<lparr>workerPool := replicate MAX_CONCURRENT_PROCESSING idleWorker\<rparr>"

fun getAvailableWorker :: "WorkerInstance list \<Rightarrow> nat option" where
  "getAvailableWorker [] = None"
| "getAvailableWorker (w # ws) =
     (if \<not> busy w then Some 0 else map_option Suc (getAvailableWorker ws))"

definition aborted :: "BatchState \<Rightarrow> bool" where
  "aborted s = (abortController s = Some True)"

text \<open>
  \<open>processNextInQueue\<close>, up to the point where it starts reading the file; \<open>now\<close> is
  \<open>Date.now()\<close>. The queue is shifted before the options are tested.
\<close>

definition processNextInQueue :: "int \<Rightarrow> BatchState \<Rightarrow> BatchState" where
  "processNextInQueue now s =
     (if aborted s then s
      else
        case getAvailableWorker (workerPool s) of
          None \<Rightarrow> s
        | Some k \<Rightarrow>
            (case pendingQueue s of
               [] \<Rightarrow> s
             | imgId # rest \<Rightarrow>
                 if optionsRef s = None then s\<lparr>pendingQueue := rest\<rparr>
                 else
                   s\<lparr>pendingQueue := rest,
                     workerPool := (workerPool s)
                        [k := \<lparr>busy = True, currentImageId = Some imgId, onmessage = Some imgId\<rparr>],
                     individualProgress := mapSet imgId
                        \<lparr>bp_imageId = imgId, bp_progress = Fin 0, bp_status = Processing\<rparr>
                        (individualProgress s),
                     images := updateStatus imgId ImageProcessing (images s),
                     processingStore := updateQueueItem imgId
                        (noUpdates\<lparr>upd_status := Some Processing, upd_startTime := Some now\<rparr>)
                        (processingStore s)\<rparr>))"

definition checkCompletion :: "BatchState \<Rightarrow> BatchState" where
  "checkCompletion s =
     (if list_all (\<lambda>w. \<not> busy w) (workerPool s) \<and> pendingQueue s = []
      then s\<lparr>batch_isProcessing := False\<rparr> else s)"

text \<open>
  The messages of a worker, and \<open>handleMessage\<close> as installed on worker \<open>k\<close> for
  image \<open>imgId\<close>. A worker whose handler is not that one delivers nothing.
\<close>

datatype WorkerResponse =
    ProgressMsg "jsnum option"
  | CompleteMsg "WorkerData option"
  | ErrorMsg "string option"

definition releaseWorker :: "nat \<Rightarrow> BatchState \<Rightarrow> BatchState" where
  "releaseWorker k s = s\<lparr>workerPool := (workerPool s)[k := idleWorker]\<rparr>"

definition handleMessage :: "nat \<Rightarrow> string \<Rightarrow> WorkerResponse \<Rightarrow> int \<Rightarrow> BatchState \<Rightarrow> BatchState" where
  "handleMessage k imgId msg now s =
     (if \<not> (k < length (workerPool s) \<and> onmessage (workerPool s ! k) = Some imgId) then s
      else if aborted s then s
      else
        case msg of
          ProgressMsg None \<Rightarrow> s
        | ProgressMsg (Some workerProgress) \<Rightarrow>
            s\<lparr>individualProgress :=
                 (case map_of (individualProgress s) imgId of
                    None \<Rightarrow> individualProgress s
                  | Some current \<Rightarrow>
                      mapSet imgId (current\<lparr>bp_progress := workerProgress\<rparr>) (individualProgress s)),
              processingStore := updateQueueItem imgId
                 (noUpdates\<lparr>upd_progress := Some workerProgress\<rparr>) (processingStore s)\<rparr>
        | CompleteMsg d \<Rightarrow>
            checkCompletion (processNextInQueue now (releaseWorker k
              (case d of
                 None \<Rightarrow> s
               | Some result \<Rightarrow>
                   s\<lparr>individualProgress := mapSet imgId
                        \<lparr>bp_imageId = imgId, bp_progress = Fin 100, bp_status = Complete\<rparr>
                        (individualProgress s),
                     completedCount := completedCount s + 1,
                     images := updateCompressed imgId result (images s),
                     processingStore := updateQueueItem imgId
                        (noUpdates\<lparr>upd_status := Some Complete, upd_progress := Some (Fin 100),
                                   upd_endTime := Some now\<rparr>)
                        (processingStore s)\<rparr>)))
        | ErrorMsg workerError \<Rightarrow>
            checkCompletion (processNextInQueue now (releaseWorker k
              (s\<lparr>individualProgress := mapSet imgId
                    \<lparr>bp_imageId = imgId, bp_progress = Fin 0, bp_status = Error\<rparr>
                    (individualProgress s),
                 images := setImageError imgId
                    (case workerError of None \<Rightarrow> ''Compression failed''
                     | Some e \<Rightarrow> if e = [] then ''Compression failed'' else e)
                    (images s),
                 processingStore := updateQueueItem imgId
                    (noUpdates\<lparr>upd_status := Some Error, upd_endTime := Some now\<rparr>)
                    (processingStore s)\<rparr>))))"

text \<open>
  The \<open>catch\<close> branch of the file read started by \<open>processNextInQueue\<close> for image
  \<open>imgId\<close> on worker \<open>k\<close>; \<open>message\<close> is \<open>err.message\<close>. It leaves the
  \<open>onmessage\<close> handler in place.
\<close>

definition fileReadFailed :: "nat \<Rightarrow> string \<Rightarrow> string \<Rightarrow> int \<Rightarrow> BatchState \<Rightarrow> BatchState" where
  "fileReadFailed k imgId message now s =
     checkCompletion (processNextInQueue now
       (s\<lparr>individualProgress := mapSet imgId
             \<lparr>bp_imageId = imgId, bp_progress = Fin 0, bp_status = Error\<rparr>
             (individualProgress s),
          images := setImageError imgId (''Failed to read file: '' @ message) (images s),
          processingStore := updateQueueItem imgId
             (noUpdates\<lparr>upd_status := Some Error, upd_endTime := Some now\<rparr>)
             (processingStore s),
          workerPool := (workerPool s)[k := (workerPool s ! k)\<lparr>busy := False, currentImageId := None\<rparr>]\<rparr>))"

text \<open>
  \<open>overallProgress\<close>, the \<open>useMemo\<close> over \<open>individualProgress\<close> and \<open>totalCount\<close>:
  the \<open>forEach\<close> adds the progress values up from 0 in the order of the map.
\<close>

definition overallProgress :: "BatchState \<Rightarrow> jsnum" where
  "overallProgress s =
     (if totalCount s = 0 then Fin 0
      else
        let totalProgress = foldl (\<lambda>acc item. js_add acc (bp_progress (snd item))) (Fin 0)
                              (individualProgress s)
        in Math_round (js_div totalProgress (Fin (real (totalCount s)))))"

text \<open>
  \<open>processBatch\<close>. The function returns nothing and has no \<open>throw\<close>; the outcome of
  a call is \<open>Inr\<close> of the state it leaves, and \<open>Inl\<close> would be an exception reaching
  the caller. \<open>enqueueImage\<close> is the body of the loop over \<open>imageIds\<close>, which reads
  the images as they were at the call.
\<close>

definition enqueueImage ::
  "ImageFile list \<Rightarrow> string \<Rightarrow> BatchState \<times> ProcessingQueueItem list
    \<Rightarrow> BatchState \<times> ProcessingQueueItem list" where
  "enqueueImage imgs imgId acc =
     (let s = fst acc; queueItems = snd acc
      in case find (\<lambda>img. image_id img = imgId) imgs of
           None \<Rightarrow> (s, queueItems)
         | Some img \<Rightarrow>
             if image_status img \<noteq> ImageComplete
             then (s\<lparr>pendingQueue := pendingQueue s @ [imgId],
                     individualProgress := mapSet imgId
                        \<lparr>bp_imageId = imgId, bp_progress = Fin 0, bp_status = Queued\<rparr>
                        (individualProgress s)\<rparr>,
                   queueItems @ [\<lparr>item_id = imgId, imageId = imgId, status = Queued,
                                   progress = Fin 0, startTime = None, endTime = None\<rparr>])
             else (s, queueItems))"

definition processBatch ::
  "string list \<Rightarrow> CompressionOptions \<Rightarrow> int \<Rightarrow> BatchState \<Rightarrow> string + BatchState" where
  "processBatch imageIds options now s =
     (if length imageIds = 0 then Inr s
      else
        let s1 = s\<lparr>batch_isProcessing := True, batch_error := None, completedCount := 0,
                   totalCount := length imageIds, individualProgress := [],
                   optionsRef := Some (validateCompressionOptions options),
                   abortController := Some False\<rparr>;
            s2 = initializeWorkerPool s1;
            (s3, queueItems) = fold (enqueueImage (images s)) imageIds (s2\<lparr>pendingQueue := []\<rparr>, []);
            s4 = s3\<lparr>processingStore := addToQueue queueItems (processingStore s3)\<rparr>
        in Inr ((processNextInQueue now ^^ MAX_CONCURRENT_PROCESSING) s4))"

text \<open>\<open>cancel\<close>; the \<open>forEach\<close> runs over the map as it was at the call.\<close>

definition cancelItem :: "string \<times> BatchProcessingProgress \<Rightarrow> BatchState \<Rightarrow> BatchState" where
  "cancelItem entry s =
     (if bp_status (snd entry) = Processing \<or> bp_status (snd entry) = Queued
      then s\<lparr>images := updateStatus (fst entry) ImagePending (images s),
             individualProgress := mapSet (fst entry)
                ((snd entry)\<lparr>bp_status := Error, bp_progress := Fin 0\<rparr>) (individualProgress s)\<rparr>
      else s)"

definition cancel :: "BatchState \<Rightarrow> BatchState" where
  "cancel s =
     (let s1 = s\<lparr>abortController := None, pendingQueue := [], workerPool := []\<rparr>;
          s2 = fold cancelItem (individualProgress s) s1
      in s2\<lparr>processingStore := clearQueue (processingStore s2),
            batch_isProcessing := False,
            batch_error := Some ''Batch processing cancelled''\<rparr>)"

text \<open>A batch of two images, the second already complete, for evaluation.\<close>

definition twoImages :: "ImageFile list" where
  "twoImages =
     [\<lparr>image_id = ''p'', image_status = ImagePending, compressed = None, image_error = None\<rparr>,
      \<lparr>image_id = ''c'', image_status = ImageComplete, compressed = None, image_error = None\<rparr>]"

definition sampleResult :: WorkerData where
  "sampleResult = \<lparr>originalSize = Fin 100, compressedSize = Fin 50, data_width = Fin 10,
                    data_height = Fin 10, data_format = Webp, compressionRatio = Fin 50\<rparr>"

definition batchStarted :: BatchState where
  "batchStarted =
     (case processBatch [''p'', ''c''] fullHD 7 (initialBatch twoImages) of
        Inr s \<Rightarrow> s | Inl _ \<Rightarrow> initialBatch twoImages)"

definition batchFinished :: BatchState where
  "batchFinished = handleMessage 0 ''p'' (CompleteMsg (Some sampleResult)) 8 batchStarted"

text \<open>
  What happens to the hook, one event after the other: a call of \<open>processBatch\<close>, a
  message of a worker, a failed file read, a call of \<open>cancel\<close>.
\<close>

datatype BatchEvent =
    Submit "string list" CompressionOptions int
  | WorkerMessage nat string WorkerResponse int
  | FileReadFailed nat string string int
  | Cancel

fun applyEvent :: "BatchEvent \<Rightarrow> BatchState \<Rightarrow> BatchState" where
  "applyEvent (Submit imageIds options now) s =
     (case processBatch imageIds options now s of Inl _ \<Rightarrow> s | Inr s' \<Rightarrow> s')"
| "applyEvent (WorkerMessage k imgId msg now) s = handleMessage k imgId msg now s"
| "applyEvent (FileReadFailed k imgId message now) s = fileReadFailed k imgId message now s"
| "applyEvent Cancel s = cancel s"

fun runEvents :: "BatchEvent list \<Rightarrow> BatchState \<Rightarrow> BatchState" where
  "runEvents [] s = s"
| "runEvents (ev # evs) s = runEvents evs (applyEvent ev s)"

text \<open>
  The declared batch size after a sequence of events: the length of the list of the last
  submission that was not empty, and \<open>d\<close> if there was none.
\<close>

fun declaredBatchSize :: "BatchEvent list \<Rightarrow> nat \<Rightarrow> nat" where
  "declaredBatchSize [] d = d"
| "declaredBatchSize (Submit imageIds options now # evs) d =
     declaredBatchSize evs (if imageIds = [] then d else length imageIds)"
| "declaredBatchSize (WorkerMessage k imgId msg now # evs) d = declaredBatchSize evs d"
| "declaredBatchSize (FileReadFailed k imgId message now # evs) d = declaredBatchSize evs d"
| "declaredBatchSize (Cancel # evs) d = declaredBatchSize evs d"

text \<open>The message \<open>workerError || 'Compression failed'\<close> that an error message records.\<close>

definition workerErrorMessage :: "string option \<Rightarrow> string" where
  "workerErrorMessage workerError =
     (case workerError of None \<Rightarrow> ''Compression failed''
      | Some e \<Rightarrow> if e = [] then ''Compression failed'' else e)"

definition sampleEvents :: "BatchEvent list" where
  "sampleEvents =
     [Submit [''p'', ''c''] fullHD 7,
      WorkerMessage 0 ''p'' (ProgressMsg (Some (Fin 30))) 8,
      WorkerMessage 0 ''p'' (CompleteMsg (Some sampleResult)) 9,
      Submit [] fullHD 10]"

section \<open>Quality normalisation: results\<close>

lemma clampQuality_cases:
  "clampQuality NaN = Fin 70"
  "clampQuality PosInf = Fin 100"
  "clampQuality NegInf = Fin 0"
  "clampQuality (Fin x) = Fin (of_int (max 0 (min 100 \<lfloor>x + 1 / 2\<rfloor>)))"
  by (simp_all add: clampQuality_def Math_min_def Math_max_def)

lemma clampQuality_range:
  "\<exists>n::int. clampQuality q = Fin (of_int n) \<and> 0 \<le> n \<and> n \<le> 100"
proof (cases q)
  case NaN
  have "clampQuality NaN = Fin (of_int 70)" by (simp add: clampQuality_cases)
  with NaN show ?thesis by (intro exI [of _ 70]) simp
next
  case NegInf
  have "clampQuality NegInf = Fin (of_int 0)" by (simp add: clampQuality_cases)
  with NegInf show ?thesis by (intro exI [of _ 0]) simp
next
  case (Fin x)
  then show ?thesis
    by (intro exI [of _ "max 0 (min 100 \<lfloor>x + 1 / 2\<rfloor>)"]) (simp add: clampQuality_cases)
next
  case PosInf
  have "clampQuality PosInf = Fin (of_int 100)" by (simp add: clampQuality_cases)
  with PosInf show ?thesis by (intro exI [of _ 100]) simp
qed

text \<open>
  Claim C6. The quality of the record that \<open>validateCompressionOptions\<close> returns is
  determined by the quality handed in: \<open>NaN\<close> gives 70, \<open>+Infinity\<close> gives 100,
  \<open>-Infinity\<close> gives 0, and a finite \<open>x\<close> gives \<open>x\<close> rounded to the nearest
  integer and then clamped, \<open>max 0 (min 100 (round x))\<close>. So a value of 100 or more
  gives 100, a value of 0 or less gives 0, an integer from 0 to 100 stays as it is, and in
  every case the result is an integer between 0 and 100. The other fields are the ones
  handed in.
\<close>

theorem validateCompressionOptions_quality_range:
  "(\<exists>n::int. quality (validateCompressionOptions options) = Fin (of_int n) \<and> 0 \<le> n \<and> n \<le> 100)
   \<and> validateCompressionOptions options = options\<lparr>quality := quality (validateCompressionOptions options)\<rparr>
   \<and> (quality options = NaN \<longrightarrow> quality (validateCompressionOptions options) = Fin 70)
   \<and> (quality options = PosInf \<longrightarrow> quality (validateCompressionOptions options) = Fin 100)
   \<and> (quality options = NegInf \<longrightarrow> quality (validateCompressionOptions options) = Fin 0)
   \<and> (\<forall>x. quality options = Fin x
          \<longrightarrow> quality (validateCompressionOptions options)
                = Fin (of_int (max 0 (min 100 \<lfloor>x + 1 / 2\<rfloor>))))
   \<and> (\<forall>x. quality options = Fin x \<and> 100 \<le> x
          \<longrightarrow> quality (validateCompressionOptions options) = Fin 100)
   \<and> (\<forall>x. quality options = Fin x \<and> x \<le> 0
          \<longrightarrow> quality (validateCompressionOptions options) = Fin 0)
   \<and> (\<forall>n::int. quality options = Fin (of_int n) \<and> 0 \<le> n \<and> n \<le> 100
          \<longrightarrow> quality (validateCompressionOptions options) = Fin (of_int n))"
proof -
  have q: "quality (validateCompressionOptions options) = clampQuality (quality options)"
    by (simp add: validateCompressionOptions_def)
  have hi: "max 0 (min 100 \<lfloor>x + 1 / 2\<rfloor>) = 100" if "100 \<le> x" for x :: real
  proof -
    have "100 \<le> \<lfloor>x + 1 / 2\<rfloor>" using that by linarith
    then show ?thesis by simp
  qed
  have lo: "max 0 (min 100 \<lfloor>x + 1 / 2\<rfloor>) = 0" if "x \<le> 0" for x :: real
  proof -
    have "\<lfloor>x + 1 / 2\<rfloor> \<le> 0" using that by linarith
    then show ?thesis by simp
  qed
  have mid: "max 0 (min 100 \<lfloor>of_int n + (1::real) / 2\<rfloor>) = n" if "0 \<le> n" "n \<le> 100" for n :: int
  proof -
    have "\<lfloor>of_int n + (1::real) / 2\<rfloor> = n" by linarith
    then show ?thesis using that by simp
  qed
  show ?thesis
    using clampQuality_range [of "quality options"] hi lo mid
    by (auto simp: q clampQuality_cases validateCompressionOptions_def)
qed

theorem validateCompressionOptions_quality_range_witness:
  "quality (validateCompressionOptions (fullHD\<lparr>quality := NaN\<rparr>)) = Fin 70
   \<and> quality (validateCompressionOptions (fullHD\<lparr>quality := PosInf\<rparr>)) = Fin 100
   \<and> quality (validateCompressionOptions (fullHD\<lparr>quality := NegInf\<rparr>)) = Fin 0
   \<and> quality (validateCompressionOptions (fullHD\<lparr>quality := Fin 150\<rparr>)) = Fin 100
   \<and> quality (validateCompressionOptions (fullHD\<lparr>quality := Fin (- 5)\<rparr>)) = Fin 0
   \<and> quality (validateCompressionOptions (fullHD\<lparr>quality := Fin 85\<rparr>)) = Fin 85
   \<and> quality (validateCompressionOptions (fullHD\<lparr>quality := Fin (69 / 2)\<rparr>)) = Fin 35"
proof -
  have a: "quality (fullHD\<lparr>quality := NaN\<rparr>) = NaN" by simp
  have b: "quality (fullHD\<lparr>quality := PosInf\<rparr>) = PosInf" by simp
  have c: "quality (fullHD\<lparr>quality := NegInf\<rparr>) = NegInf" by simp
  have d: "quality (fullHD\<lparr>quality := Fin 150\<rparr>) = Fin 150 \<and> (100::real) \<le> 150" by simp
  have e: "quality (fullHD\<lparr>quality := Fin (- 5)\<rparr>) = Fin (- 5) \<and> (- 5::real) \<le> 0" by simp
  have f: "quality (fullHD\<lparr>quality := Fin 85\<rparr>) = Fin (of_int 85) \<and> (0::int) \<le> 85 \<and> (85::int) \<le> 100"
    by simp
  have g: "quality (fullHD\<lparr>quality := Fin (69 / 2)\<rparr>) = Fin (69 / 2)" by simp
  have "quality (validateCompressionOptions (fullHD\<lparr>quality := NaN\<rparr>)) = Fin 70"
    using a validateCompressionOptions_quality_range [of "fullHD\<lparr>quality := NaN\<rparr>"] by blast
  moreover have "quality (validateCompressionOptions (fullHD\<lparr>quality := PosInf\<rparr>)) = Fin 100"
    using b validateCompressionOptions_quality_range [of "fullHD\<lparr>quality := PosInf\<rparr>"] by blast
  moreover have "quality (validateCompressionOptions (fullHD\<lparr>quality := NegInf\<rparr>)) = Fin 0"
    using c validateCompressionOptions_quality_range [of "fullHD\<lparr>quality := NegInf\<rparr>"] by blast
  moreover have "quality (validateCompressionOptions (fullHD\<lparr>quality := Fin 150\<rparr>)) = Fin 100"
    using d validateCompressionOptions_quality_range [of "fullHD\<lparr>quality := Fin 150\<rparr>"] by blast
  moreover have "quality (validateCompressionOptions (fullHD\<lparr>quality := Fin (- 5)\<rparr>)) = Fin 0"
    using e validateCompressionOptions_quality_range [of "fullHD\<lparr>quality := Fin (- 5)\<rparr>"] by blast
  moreover have "quality (validateCompressionOptions (fullHD\<lparr>quality := Fin 85\<rparr>)) = Fin (of_int 85)"
    using f validateCompressionOptions_quality_range [of "fullHD\<lparr>quality := Fin 85\<rparr>"] by blast
  moreover have "quality (validateCompressionOptions (fullHD\<lparr>quality := Fin (69 / 2)\<rparr>))
                   = Fin (of_int (max 0 (min 100 \<lfloor>(69::real) / 2 + 1 / 2\<rfloor>)))"
    using g validateCompressionOptions_quality_range [of "fullHD\<lparr>quality := Fin (69 / 2)\<rparr>"] by blast
  ultimately show ?thesis by simp
qed

section \<open>Dimension resolution: results\<close>











section \<open>Compression ratio: results\<close>











section \<open>Processing store: results\<close>

lemma map_start_absent:
  assumes "i \<notin> set (map item_id q)"
  shows "map (\<lambda>item. if item_id item = i then f item else item) q = q"
  using assms by (induction q) auto

lemma find_by_id_None:
  "find (\<lambda>item. item_id item = i) q = None \<longleftrightarrow> i \<notin> set (map item_id q)"
  by (induction q) auto

lemma find_by_id_Some:
  assumes "find (\<lambda>item. item_id item = i) q = Some it"
  shows "it \<in> set q \<and> item_id it = i"
  using assms by (induction q) (auto split: if_splits)

text \<open>With pairwise distinct ids the \<open>map\<close> of \<open>startProcessing\<close> rewrites one position.\<close>

lemma map_start_single:
  assumes "distinct (map item_id q)" and "find (\<lambda>item. item_id item = i) q = Some it"
  shows "\<exists>k < length q. q ! k = it
           \<and> map (\<lambda>item. if item_id item = i then f item else item) q = q[k := f it]"
  using assms
proof (induction q)
  case Nil
  then show ?case by simp
next
  case (Cons x q)
  show ?case
  proof (cases "item_id x = i")
    case True
    with Cons.prems have "x = it" and "i \<notin> set (map item_id q)" by auto
    then have "map (\<lambda>item. if item_id item = i then f item else item) (x # q) = (x # q)[0 := f it]"
      using True by (simp add: map_start_absent)
    moreover have "(x # q) ! 0 = it" using \<open>x = it\<close> by simp
    ultimately show ?thesis by blast
  next
    case False
    with Cons.prems have "distinct (map item_id q)" "find (\<lambda>item. item_id item = i) q = Some it"
      by auto
    from Cons.IH [OF this] obtain k where k: "k < length q" "q ! k = it"
      "map (\<lambda>item. if item_id item = i then f item else item) q = q[k := f it]" by blast
    then have "Suc k < length (x # q)" "(x # q) ! Suc k = it"
      "map (\<lambda>item. if item_id item = i then f item else item) (x # q) = (x # q)[Suc k := f it]"
      using False by auto
    then show ?thesis by blast
  qed
qed

lemma processing_count_update:
  assumes "k < length q" and "status (q ! k) \<noteq> Processing" and "status v = Processing"
  shows "length (filter (\<lambda>item. status item = Processing) (q[k := v]))
           = Suc (length (filter (\<lambda>item. status item = Processing) q))"
  using assms
proof (induction q arbitrary: k)
  case Nil
  then show ?case by simp
next
  case (Cons x q)
  then show ?case by (cases k) auto
qed

lemma startProcessing_False_unchanged:
  assumes "\<not> fst (startProcessing now i state)"
  shows "snd (startProcessing now i state) = state"
  using assms by (auto simp: startProcessing_def Let_def split: option.splits if_splits)

lemma startProcessing_True_iff:
  "fst (startProcessing now i state) \<longleftrightarrow>
     getProcessingCount state < MAX_CONCURRENT_PROCESSING
     \<and> (\<exists>item. find (\<lambda>item. item_id item = i) (queue state) = Some item \<and> status item = Queued)"
  by (auto simp: startProcessing_def Let_def split: option.splits)

lemma startProcessing_True_single:
  assumes "distinct (map item_id (queue state))" and "fst (startProcessing now i state)"
  shows "\<exists>k < length (queue state).
           item_id (queue state ! k) = i \<and> status (queue state ! k) = Queued
         \<and> snd (startProcessing now i state)
             = state\<lparr>queue := (queue state)[k := (queue state ! k)\<lparr>status := Processing, startTime := Some now\<rparr>]\<rparr>"
proof -
  from assms(2) obtain it where it: "find (\<lambda>item. item_id item = i) (queue state) = Some it"
    "status it = Queued" "getProcessingCount state < MAX_CONCURRENT_PROCESSING"
    by (auto simp: startProcessing_True_iff)
  from map_start_single [OF assms(1) it(1), of "\<lambda>item. item\<lparr>status := Processing, startTime := Some now\<rparr>"]
  obtain k where k: "k < length (queue state)" "queue state ! k = it"
    "map (\<lambda>item. if item_id item = i then item\<lparr>status := Processing, startTime := Some now\<rparr> else item)
       (queue state) = (queue state)[k := it\<lparr>status := Processing, startTime := Some now\<rparr>]"
    by blast
  have "snd (startProcessing now i state)
          = state\<lparr>queue := (queue state)[k := (queue state ! k)\<lparr>status := Processing, startTime := Some now\<rparr>]\<rparr>"
    using it k by (simp add: startProcessing_def Let_def)
  moreover have "item_id (queue state ! k) = i" using find_by_id_Some [OF it(1)] k(2) by simp
  ultimately show ?thesis using k(1,2) it(2) by blast
qed

text \<open>
  The invariant of the store: pairwise distinct ids, and at most
  \<open>MAX_CONCURRENT_PROCESSING\<close> items in status \<open>processing\<close>.
\<close>

lemma filter_processing_none:
  assumes "list_all (\<lambda>item. status item \<noteq> Processing) items"
  shows "filter (\<lambda>item. status item = Processing) items = []"
  using assms by (induction items) auto

lemma applyUpdates_count:
  assumes "upd_status updates \<noteq> Some Processing"
  shows "length (filter (\<lambda>item. status item = Processing)
                   (map (\<lambda>item. if item_id item = i then applyUpdates item updates else item) q))
           \<le> length (filter (\<lambda>item. status item = Processing) q)"
  using assms by (induction q) (auto simp: applyUpdates_def split: option.splits)

lemma applyUpdates_ids:
  assumes "upd_id updates = None"
  shows "map item_id (map (\<lambda>item. if item_id item = i then applyUpdates item updates else item) q)
           = map item_id q"
  using assms by (induction q) (auto simp: applyUpdates_def)

lemma filter_filter_count:
  "length (filter P (filter Q q)) \<le> length (filter P q)"
  by (induction q) auto

lemma update_same_id:
  assumes "k < length q" and "item_id v = item_id (q ! k)"
  shows "map item_id (q[k := v]) = map item_id q"
  using assms by (simp add: map_update list_update_same_conv)

lemma startProcessing_inv:
  assumes "distinct (map item_id (queue state))"
    and "getProcessingCount state \<le> MAX_CONCURRENT_PROCESSING"
  shows "distinct (map item_id (queue (snd (startProcessing now i state))))
         \<and> getProcessingCount (snd (startProcessing now i state)) \<le> MAX_CONCURRENT_PROCESSING"
proof (cases "fst (startProcessing now i state)")
  case False
  then show ?thesis using assms by (simp add: startProcessing_False_unchanged)
next
  case True
  from startProcessing_True_single [OF assms(1) True] obtain k where k:
    "k < length (queue state)" "status (queue state ! k) = Queued"
    "snd (startProcessing now i state)
       = state\<lparr>queue := (queue state)[k := (queue state ! k)\<lparr>status := Processing, startTime := Some now\<rparr>]\<rparr>"
    by blast
  have lt: "getProcessingCount state < MAX_CONCURRENT_PROCESSING"
    using True by (simp add: startProcessing_True_iff)
  have "map item_id (queue (snd (startProcessing now i state))) = map item_id (queue state)"
    using k(1,3) by (simp add: update_same_id)
  moreover have "getProcessingCount (snd (startProcessing now i state)) = Suc (getProcessingCount state)"
    using k by (simp add: getProcessingCount_def processing_count_update)
  ultimately show ?thesis using assms(1) lt by simp
qed

lemma applyOp_inv:
  assumes "opAdmissible op state"
    and "distinct (map item_id (queue state))"
    and "getProcessingCount state \<le> MAX_CONCURRENT_PROCESSING"
  shows "distinct (map item_id (queue (applyOp op state)))
         \<and> getProcessingCount (applyOp op state) \<le> MAX_CONCURRENT_PROCESSING"
proof (cases op)
  case (AddToQueue items)
  then show ?thesis using assms
    by (simp add: addToQueue_def getProcessingCount_def filter_processing_none)
next
  case (UpdateQueueItem i updates)
  then have "getProcessingCount (applyOp op state) \<le> getProcessingCount state"
    using assms(1) applyUpdates_count [of updates i "queue state"]
    by (simp add: updateQueueItem_def getProcessingCount_def)
  moreover have "map item_id (queue (applyOp op state)) = map item_id (queue state)"
    using UpdateQueueItem assms(1) applyUpdates_ids [of updates i "queue state"]
    by (simp add: updateQueueItem_def)
  ultimately show ?thesis using assms(2,3) by simp
next
  case (RemoveFromQueue i)
  have "getProcessingCount (applyOp op state) \<le> getProcessingCount state"
    using RemoveFromQueue
      filter_filter_count [of "\<lambda>item. status item = Processing" "\<lambda>item. item_id item \<noteq> i" "queue state"]
    by (simp add: removeFromQueue_def getProcessingCount_def Let_def)
  moreover have "distinct (map item_id (queue (applyOp op state)))"
    using RemoveFromQueue assms(2) by (simp add: removeFromQueue_def Let_def distinct_map_filter)
  ultimately show ?thesis using assms(3) by simp
next
  case ClearQueue
  then show ?thesis by (simp add: clearQueue_def getProcessingCount_def)
next
  case (StartProcessing now i)
  then show ?thesis using startProcessing_inv [OF assms(2,3)] by simp
qed

lemma runOps_inv:
  assumes "opsAdmissible ops state"
    and "distinct (map item_id (queue state))"
    and "getProcessingCount state \<le> MAX_CONCURRENT_PROCESSING"
  shows "getProcessingCount (runOps ops state) \<le> MAX_CONCURRENT_PROCESSING"
  using assms
proof (induction ops arbitrary: state)
  case Nil
  then show ?case by simp
next
  case (Cons op ops)
  from Cons.prems have "opAdmissible op state" "opsAdmissible ops (applyOp op state)" by simp_all
  with Cons.IH applyOp_inv [OF \<open>opAdmissible op state\<close> Cons.prems(2,3)] show ?case by simp
qed

lemma opsAdmissible_take:
  assumes "opsAdmissible ops state"
  shows "opsAdmissible (take n ops) state"
  using assms
proof (induction ops arbitrary: state n)
  case Nil
  then show ?case by simp
next
  case (Cons op ops)
  then show ?case by (cases n) auto
qed

text \<open>
  Attempting to start the items of a list of distinct ids, each the id of a queued item:
  the starts succeed until the cap is reached and fail from then on.
\<close>

lemma start_each_count:
  assumes "distinct (map item_id (queue state))"
    and "distinct ids"
    and "\<forall>i \<in> set ids. \<exists>item \<in> set (queue state). item_id item = i \<and> status item = Queued"
    and "getProcessingCount state \<le> MAX_CONCURRENT_PROCESSING"
  shows "getProcessingCount (runOps (map (StartProcessing now) ids) state)
           = min MAX_CONCURRENT_PROCESSING (getProcessingCount state + length ids)"
  using assms
proof (induction ids arbitrary: state)
  case Nil
  then show ?case by simp
next
  case (Cons i ids)
  let ?s' = "snd (startProcessing now i state)"
  have inv': "distinct (map item_id (queue ?s'))" "getProcessingCount ?s' \<le> MAX_CONCURRENT_PROCESSING"
    using startProcessing_inv [OF Cons.prems(1,4)] by simp_all
  show ?case
  proof (cases "fst (startProcessing now i state)")
    case False
    from Cons.prems(3) obtain it where it: "it \<in> set (queue state)" "item_id it = i" "status it = Queued"
      by auto
    then obtain it' where f: "find (\<lambda>item. item_id item = i) (queue state) = Some it'"
      by (cases "find (\<lambda>item. item_id item = i) (queue state)") (auto simp: find_by_id_None)
    from find_by_id_Some [OF f] have "it' \<in> set (queue state)" "item_id it' = i" by simp_all
    with it Cons.prems(1) have "it' = it" by (meson distinct_map inj_onD)
    with False f it(3) have full: "getProcessingCount state = MAX_CONCURRENT_PROCESSING"
      using Cons.prems(4) by (simp add: startProcessing_True_iff)
    have s': "?s' = state" using False by (rule startProcessing_False_unchanged)
    have "getProcessingCount (runOps (map (StartProcessing now) ids) state)
            = min MAX_CONCURRENT_PROCESSING (getProcessingCount state + length ids)"
      using Cons.prems by (intro Cons.IH) auto
    then show ?thesis using s' full by simp
  next
    case True
    from startProcessing_True_single [OF Cons.prems(1) True] obtain k where k:
      "k < length (queue state)" "item_id (queue state ! k) = i" "status (queue state ! k) = Queued"
      "?s' = state\<lparr>queue := (queue state)[k := (queue state ! k)\<lparr>status := Processing, startTime := Some now\<rparr>]\<rparr>"
      by blast
    have cnt: "getProcessingCount ?s' = Suc (getProcessingCount state)"
      using k by (simp add: getProcessingCount_def processing_count_update)
    have rest: "\<forall>j \<in> set ids. \<exists>item \<in> set (queue ?s'). item_id item = j \<and> status item = Queued"
    proof
      fix j assume j: "j \<in> set ids"
      with Cons.prems(2) have "j \<noteq> i" by auto
      from j Cons.prems(3) obtain it where it: "it \<in> set (queue state)" "item_id it = j" "status it = Queued"
        by auto
      then obtain m where m: "m < length (queue state)" "queue state ! m = it"
        by (auto simp: in_set_conv_nth)
      with \<open>j \<noteq> i\<close> it(2) k(2) have "m \<noteq> k" by auto
      then have "queue ?s' ! m = it" using k(4) m by simp
      moreover have "m < length (queue ?s')" using k(4) m by simp
      ultimately have "it \<in> set (queue ?s')" by (metis nth_mem)
      with it show "\<exists>item \<in> set (queue ?s'). item_id item = j \<and> status item = Queued" by blast
    qed
    have "getProcessingCount (runOps (map (StartProcessing now) ids) ?s')
            = min MAX_CONCURRENT_PROCESSING (getProcessingCount ?s' + length ids)"
      using inv' Cons.prems(2) rest by (intro Cons.IH) auto
    then show ?thesis using cnt by simp
  qed
qed

text \<open>
  Claim C10, amended. \<open>startProcessing\<close> returns false and leaves the state as it is
  when the number of \<open>processing\<close> items has reached \<open>MAX_CONCURRENT_PROCESSING\<close>,
  when no item has the id, or when the first item with the id is not \<open>queued\<close>; in every
  other case it returns true. When it returns true and the ids of the queue are pairwise
  distinct, the new queue is the old one with the single item of that id, which was
  \<open>queued\<close>, set to \<open>processing\<close> with \<open>startTime = now\<close>, and nothing else
  changed.
\<close>

theorem startProcessing_single_transition:
  "(getProcessingCount state \<ge> MAX_CONCURRENT_PROCESSING
      \<or> i \<notin> set (map item_id (queue state))
      \<or> (\<exists>item. find (\<lambda>item. item_id item = i) (queue state) = Some item \<and> status item \<noteq> Queued)
    \<longrightarrow> startProcessing now i state = (False, state))
   \<and> (\<not> (getProcessingCount state \<ge> MAX_CONCURRENT_PROCESSING
      \<or> i \<notin> set (map item_id (queue state))
      \<or> (\<exists>item. find (\<lambda>item. item_id item = i) (queue state) = Some item \<and> status item \<noteq> Queued))
    \<longrightarrow> fst (startProcessing now i state))
   \<and> (fst (startProcessing now i state) \<and> distinct (map item_id (queue state))
    \<longrightarrow> (\<exists>k < length (queue state).
           item_id (queue state ! k) = i \<and> status (queue state ! k) = Queued
         \<and> snd (startProcessing now i state)
             = state\<lparr>queue := (queue state)[k := (queue state ! k)\<lparr>status := Processing, startTime := Some now\<rparr>]\<rparr>))"
proof (intro conjI impI)
  assume "getProcessingCount state \<ge> MAX_CONCURRENT_PROCESSING
      \<or> i \<notin> set (map item_id (queue state))
      \<or> (\<exists>item. find (\<lambda>item. item_id item = i) (queue state) = Some item \<and> status item \<noteq> Queued)"
  then have "\<not> fst (startProcessing now i state)"
    by (auto simp: startProcessing_True_iff find_by_id_None [symmetric] simp del: set_map)
  then show "startProcessing now i state = (False, state)"
    using startProcessing_False_unchanged [of now i state] by (simp add: prod_eq_iff)
next
  assume "\<not> (getProcessingCount state \<ge> MAX_CONCURRENT_PROCESSING
      \<or> i \<notin> set (map item_id (queue state))
      \<or> (\<exists>item. find (\<lambda>item. item_id item = i) (queue state) = Some item \<and> status item \<noteq> Queued))"
  then show "fst (startProcessing now i state)"
    by (cases "find (\<lambda>item. item_id item = i) (queue state)")
       (auto simp: startProcessing_True_iff find_by_id_None simp del: set_map)
next
  assume "fst (startProcessing now i state) \<and> distinct (map item_id (queue state))"
  then show "\<exists>k < length (queue state).
           item_id (queue state ! k) = i \<and> status (queue state ! k) = Queued
         \<and> snd (startProcessing now i state)
             = state\<lparr>queue := (queue state)[k := (queue state ! k)\<lparr>status := Processing, startTime := Some now\<rparr>]\<rparr>"
    using startProcessing_True_single [of state now i] by blast
qed

theorem startProcessing_single_transition_witness:
  "startProcessing 5 ''z'' twoQueued = (False, twoQueued)
   \<and> fst (startProcessing 5 ''b'' twoQueued) \<and> distinct (map item_id (queue twoQueued))
   \<and> (\<exists>k < length (queue twoQueued).
           item_id (queue twoQueued ! k) = ''b'' \<and> status (queue twoQueued ! k) = Queued
         \<and> snd (startProcessing 5 ''b'' twoQueued)
             = twoQueued\<lparr>queue := (queue twoQueued)[k := (queue twoQueued ! k)\<lparr>status := Processing, startTime := Some 5\<rparr>]\<rparr>)"
proof -
  have a: "''z'' \<notin> set (map item_id (queue twoQueued))"
    by (simp add: twoQueued_def queuedItem_def)
  have b: "\<not> (getProcessingCount twoQueued \<ge> MAX_CONCURRENT_PROCESSING
      \<or> ''b'' \<notin> set (map item_id (queue twoQueued))
      \<or> (\<exists>item. find (\<lambda>item. item_id item = ''b'') (queue twoQueued) = Some item \<and> status item \<noteq> Queued))"
    by (simp add: twoQueued_def queuedItem_def getProcessingCount_def MAX_CONCURRENT_PROCESSING_def)
  have c: "distinct (map item_id (queue twoQueued))"
    by (simp add: twoQueued_def queuedItem_def)
  show ?thesis
    using a b c startProcessing_single_transition [of twoQueued "''z''" 5]
      startProcessing_single_transition [of twoQueued "''b''" 5]
    by blast
qed

text \<open>
  With two items of one id, the first \<open>queued\<close> and the second \<open>complete\<close>,
  \<open>startProcessing\<close> returns true and sets both to \<open>processing\<close>: it changes two
  items, one of which was not \<open>queued\<close>.
\<close>

theorem startProcessing_duplicate_id_counterexample:
  "startProcessing 5 ''a'' duplicateIds
     = (True, duplicateIds\<lparr>queue := [(queuedItem ''a'')\<lparr>status := Processing, startTime := Some 5\<rparr>,
                                     (queuedItem ''a'')\<lparr>status := Processing, startTime := Some 5\<rparr>]\<rparr>)
   \<and> changedItems (queue duplicateIds) (queue (snd (startProcessing 5 ''a'' duplicateIds))) = 2"
  by (simp add: startProcessing_def duplicateIds_def queuedItem_def getProcessingCount_def
      MAX_CONCURRENT_PROCESSING_def changedItems_def)

text \<open>
  Claim C1, amended. From the empty queue, along every sequence of store actions in which
  each \<open>addToQueue\<close> adds items that are not \<open>processing\<close> and keeps the ids of the
  queue pairwise distinct, and each \<open>updateQueueItem\<close> neither sets the status
  \<open>processing\<close> nor changes an id, the number of \<open>processing\<close> items is at most
  \<open>MAX_CONCURRENT_PROCESSING = 4\<close> after every action. After enqueuing 20 queued items
  of pairwise distinct ids and attempting to start each of them, exactly 4 are
  \<open>processing\<close>.
\<close>

theorem processing_cap:
  "(opsAdmissible ops initialStore
      \<longrightarrow> getProcessingCount (runOps (take n ops) initialStore) \<le> MAX_CONCURRENT_PROCESSING)
   \<and> (length items = 20 \<and> distinct (map item_id items) \<and> list_all (\<lambda>item. status item = Queued) items
      \<longrightarrow> getProcessingCount (runOps (AddToQueue items # startAll now items) initialStore) = 4)
   \<and> MAX_CONCURRENT_PROCESSING = 4"
proof (intro conjI impI)
  assume "opsAdmissible ops initialStore"
  then have "opsAdmissible (take n ops) initialStore" by (rule opsAdmissible_take)
  then show "getProcessingCount (runOps (take n ops) initialStore) \<le> MAX_CONCURRENT_PROCESSING"
    by (rule runOps_inv) (simp_all add: initialStore_def getProcessingCount_def)
next
  assume a: "length items = 20 \<and> distinct (map item_id items) \<and> list_all (\<lambda>item. status item = Queued) items"
  let ?s = "addToQueue items initialStore"
  have q: "queue ?s = items" by (simp add: addToQueue_def initialStore_def)
  have c0: "getProcessingCount ?s = 0"
    using a by (auto simp: getProcessingCount_def q list_all_iff filter_empty_conv)
  have "getProcessingCount (runOps (map (StartProcessing now) (map item_id items)) ?s)
          = min MAX_CONCURRENT_PROCESSING (getProcessingCount ?s + length (map item_id items))"
    using a c0 by (intro start_each_count) (auto simp: q list_all_iff)
  then show "getProcessingCount (runOps (AddToQueue items # startAll now items) initialStore) = 4"
    using a c0 by (simp add: startAll_def MAX_CONCURRENT_PROCESSING_def comp_def)
next
  show "MAX_CONCURRENT_PROCESSING = 4" by (simp add: MAX_CONCURRENT_PROCESSING_def)
qed

theorem processing_cap_witness:
  "opsAdmissible sampleOps initialStore
   \<and> getProcessingCount (runOps (take 9 sampleOps) initialStore) \<le> MAX_CONCURRENT_PROCESSING
   \<and> getProcessingCount (runOps (take 9 sampleOps) initialStore) = 4
   \<and> length twentyItems = 20 \<and> distinct (map item_id twentyItems)
   \<and> list_all (\<lambda>item. status item = Queued) twentyItems
   \<and> getProcessingCount (runOps (AddToQueue twentyItems # startAll 1 twentyItems) initialStore) = 4"
proof -
  have a: "opsAdmissible sampleOps initialStore"
    by (simp add: sampleOps_def initialStore_def queuedItem_def completed_def addToQueue_def
        startProcessing_def getProcessingCount_def MAX_CONCURRENT_PROCESSING_def Let_def
        updateQueueItem_def applyUpdates_def removeFromQueue_def)
  have b: "getProcessingCount (runOps (take 9 sampleOps) initialStore) = 4"
    by (simp add: sampleOps_def initialStore_def queuedItem_def completed_def addToQueue_def
        startProcessing_def getProcessingCount_def MAX_CONCURRENT_PROCESSING_def Let_def
        updateQueueItem_def applyUpdates_def removeFromQueue_def)
  have c: "length twentyItems = 20 \<and> distinct (map item_id twentyItems)
             \<and> list_all (\<lambda>item. status item = Queued) twentyItems"
    by (simp add: twentyItems_def queuedItem_def)
  show ?thesis
    using a b c processing_cap [of sampleOps 9 twentyItems 1] by simp
qed

text \<open>
  Five queued items carrying one id are enqueued and that id is started once: the single
  \<open>startProcessing\<close> sets all five to \<open>processing\<close>, above the cap of 4.
\<close>

theorem processing_cap_counterexample:
  "getProcessingCount (runOps sameIdOps initialStore) = 5
   \<and> \<not> getProcessingCount (runOps sameIdOps initialStore) \<le> MAX_CONCURRENT_PROCESSING"
  by (simp add: sameIdOps_def initialStore_def queuedItem_def addToQueue_def startProcessing_def
      getProcessingCount_def MAX_CONCURRENT_PROCESSING_def Let_def)

section \<open>History store: results\<close>

lemma mset_indexInsert: "mset (indexInsert e xs) = add_mset e (mset xs)"
  by (induction xs) auto

lemma mset_timestampIndex: "mset (timestampIndex store) = mset store"
  by (induction store) (auto simp: timestampIndex_def mset_indexInsert)

lemma set_timestampIndex: "set (timestampIndex store) = set store"
  using mset_timestampIndex by (rule mset_eq_setD)

lemma length_timestampIndex: "length (timestampIndex store) = length store"
  using mset_timestampIndex by (rule mset_eq_length)

lemma distinct_map_timestampIndex:
  "distinct (map f (timestampIndex store)) \<longleftrightarrow> distinct (map f store)"
proof -
  have "mset (map f (timestampIndex store)) = mset (map f store)"
    by (simp add: mset_timestampIndex)
  then show ?thesis by (rule mset_eq_imp_distinct_iff)
qed

lemma indexBefore_total: "indexBefore a b \<or> indexBefore b a"
  by (auto simp: indexBefore_def)

lemma indexBefore_trans: "indexBefore a b \<Longrightarrow> indexBefore b c \<Longrightarrow> indexBefore a c"
  by (auto simp: indexBefore_def)

lemma indexBefore_timestamp: "indexBefore a b \<Longrightarrow> timestamp a \<le> timestamp b"
  by (auto simp: indexBefore_def)

lemma sorted_indexInsert:
  assumes "sorted_wrt indexBefore xs"
  shows "sorted_wrt indexBefore (indexInsert e xs)"
  using assms
proof (induction xs)
  case Nil
  then show ?case by simp
next
  case (Cons x xs)
  show ?case
  proof (cases "indexBefore e x")
    case True
    then have "\<forall>y \<in> set xs. indexBefore e y"
      using Cons.prems by (auto intro: indexBefore_trans)
    with True Cons.prems show ?thesis by simp
  next
    case False
    then have "indexBefore x e" using indexBefore_total by blast
    moreover have "set (indexInsert e xs) = insert e (set xs)"
      using mset_indexInsert [of e xs] by (metis mset_eq_setD set_mset_add_mset_insert set_mset_mset)
    ultimately show ?thesis using False Cons by simp
  qed
qed

lemma sorted_timestampIndex: "sorted_wrt indexBefore (timestampIndex store)"
  by (induction store) (auto simp: timestampIndex_def sorted_indexInsert)

lemma timestamps_ascending:
  "sorted_wrt (\<lambda>a b. timestamp a \<le> timestamp b) (timestampIndex store)"
  using sorted_timestampIndex [of store]
  by (rule sorted_wrt_mono_rel [rotated]) (simp add: indexBefore_timestamp)

lemma timestamps_strictly_ascending:
  assumes "distinct (map timestamp store)"
  shows "sorted_wrt (\<lambda>a b. timestamp a < timestamp b) (timestampIndex store)"
proof -
  have "sorted (map timestamp (timestampIndex store))"
    using timestamps_ascending [of store] by (simp add: sorted_wrt_map)
  moreover have "distinct (map timestamp (timestampIndex store))"
    using assms by (simp add: distinct_map_timestampIndex)
  ultimately have "sorted_wrt (<) (map timestamp (timestampIndex store))"
    by (simp add: strict_sorted_iff)
  then show ?thesis by (simp add: sorted_wrt_map)
qed

text \<open>
  Claim C8, amended. \<open>getHistoryEntries\<close> returns every entry of the store, each once,
  newest first: of two returned entries the later one has a smaller timestamp, or the same
  timestamp and an id that is not greater. So the timestamps never increase along the
  result, entries of one timestamp come by descending id, and where the timestamps of the
  store are pairwise distinct the order is strictly descending.
\<close>

theorem getHistoryEntries_newest_first:
  "mset (getHistoryEntries store) = mset store
   \<and> sorted_wrt (\<lambda>a b. timestamp b < timestamp a
                        \<or> (timestamp b = timestamp a \<and> entry_id b \<le> entry_id a))
        (getHistoryEntries store)
   \<and> sorted_wrt (\<lambda>a b. timestamp a \<ge> timestamp b) (getHistoryEntries store)
   \<and> (distinct (map timestamp store)
        \<longrightarrow> sorted_wrt (\<lambda>a b. timestamp a > timestamp b) (getHistoryEntries store))"
proof -
  have "sorted_wrt (\<lambda>a b. indexBefore b a) (getHistoryEntries store)"
    using sorted_timestampIndex [of store] by (simp add: getHistoryEntries_def sorted_wrt_rev)
  then have "sorted_wrt (\<lambda>a b. timestamp b < timestamp a
                        \<or> (timestamp b = timestamp a \<and> entry_id b \<le> entry_id a))
        (getHistoryEntries store)"
    by (simp add: indexBefore_def)
  then show ?thesis
    using timestamps_ascending [of store] timestamps_strictly_ascending [of store]
    by (simp add: getHistoryEntries_def mset_timestampIndex sorted_wrt_rev)
qed

theorem getHistoryEntries_newest_first_witness:
  "distinct (map timestamp [historyEntry ''oldest'' 1000, historyEntry ''newest'' 3000,
                           historyEntry ''middle'' 2000])
   \<and> sorted_wrt (\<lambda>a b. timestamp a > timestamp b)
        (getHistoryEntries [historyEntry ''oldest'' 1000, historyEntry ''newest'' 3000,
                            historyEntry ''middle'' 2000])
   \<and> map entry_id (getHistoryEntries [historyEntry ''oldest'' 1000, historyEntry ''newest'' 3000,
                                      historyEntry ''middle'' 2000])
       = [''newest'', ''middle'', ''oldest'']
   \<and> sorted_wrt (\<lambda>a b. timestamp b < timestamp a
                        \<or> (timestamp b = timestamp a \<and> entry_id b \<le> entry_id a))
        (getHistoryEntries [historyEntry ''a'' 5, historyEntry ''c'' 7, historyEntry ''b'' 5])
   \<and> map entry_id (getHistoryEntries [historyEntry ''a'' 5, historyEntry ''c'' 7, historyEntry ''b'' 5])
       = [''c'', ''b'', ''a'']"
proof -
  have d: "distinct (map timestamp [historyEntry ''oldest'' 1000, historyEntry ''newest'' 3000,
                                   historyEntry ''middle'' 2000])"
    by (simp add: historyEntry_def)
  have e: "map entry_id (getHistoryEntries [historyEntry ''oldest'' 1000, historyEntry ''newest'' 3000,
                                           historyEntry ''middle'' 2000])
             = [''newest'', ''middle'', ''oldest'']"
    by (simp add: getHistoryEntries_def timestampIndex_def indexBefore_def historyEntry_def)
  have f: "map entry_id (getHistoryEntries [historyEntry ''a'' 5, historyEntry ''c'' 7, historyEntry ''b'' 5])
             = [''c'', ''b'', ''a'']"
    by (simp add: getHistoryEntries_def timestampIndex_def indexBefore_def historyEntry_def)
  show ?thesis
    using d e f getHistoryEntries_newest_first
      [of "[historyEntry ''oldest'' 1000, historyEntry ''newest'' 3000, historyEntry ''middle'' 2000]"]
      getHistoryEntries_newest_first
      [of "[historyEntry ''a'' 5, historyEntry ''c'' 7, historyEntry ''b'' 5]"]
    by blast
qed

text \<open>
  The index on \<open>timestamp\<close> is not unique. Two entries of one timestamp are both
  returned, next to each other, so the order is not strictly descending.
\<close>

theorem getHistoryEntries_equal_timestamps_counterexample:
  "getHistoryEntries [historyEntry ''a'' 5, historyEntry ''b'' 5]
     = [historyEntry ''b'' 5, historyEntry ''a'' 5]
   \<and> \<not> sorted_wrt (\<lambda>a b. timestamp a > timestamp b)
          (getHistoryEntries [historyEntry ''a'' 5, historyEntry ''b'' 5])"
  by (simp add: getHistoryEntries_def timestampIndex_def indexBefore_def historyEntry_def)

text \<open>The cursor loop deletes the records of the first \<open>entriesToDelete - deleted\<close> keys.\<close>

lemma evictOldest_filter:
  "evictOldest cursor deleted n store
     = filter (\<lambda>e. entry_id e \<notin> set (map entry_id (take (n - deleted) cursor))) store"
proof (induction cursor arbitrary: deleted store)
  case Nil
  then show ?case by simp
next
  case (Cons c cursor)
  show ?case
  proof (cases "deleted < n")
    case True
    then obtain m where m: "n - deleted = Suc m" by (metis Suc_diff_Suc)
    then have m': "n - (deleted + 1) = m" by simp
    show ?thesis using True Cons.IH [of "deleted + 1"] m m'
      by (auto simp: store_delete_def intro: filter_cong)
  next
    case False
    then show ?thesis by simp
  qed
qed

lemma evicted_by_id:
  assumes "distinct (map entry_id store)" and "e \<in> set store"
  shows "entry_id e \<in> set (map entry_id (take k (timestampIndex store)))
           \<longleftrightarrow> e \<in> set (take k (timestampIndex store))"
proof
  assume "entry_id e \<in> set (map entry_id (take k (timestampIndex store)))"
  then obtain e' where e': "e' \<in> set (take k (timestampIndex store))" "entry_id e' = entry_id e"
    by auto
  then have "e' \<in> set store" using set_timestampIndex by (metis in_set_takeD)
  with assms e'(2) have "e' = e" by (meson distinct_map inj_onD)
  with e'(1) show "e \<in> set (take k (timestampIndex store))" by simp
next
  assume "e \<in> set (take k (timestampIndex store))"
  then show "entry_id e \<in> set (map entry_id (take k (timestampIndex store)))" by simp
qed

lemma evictOldest_entries:
  assumes "distinct (map entry_id store)"
  shows "evictOldest (timestampIndex store) 0 k store
           = filter (\<lambda>e. e \<notin> set (take k (timestampIndex store))) store"
  unfolding evictOldest_filter
  using assms by (auto intro!: filter_cong simp: evicted_by_id simp del: set_map)

lemma length_evictOldest:
  assumes "distinct (map entry_id store)" and "k \<le> length store"
  shows "length (evictOldest (timestampIndex store) 0 k store) = length store - k"
proof -
  let ?ids = "map entry_id store"
  let ?K = "set (map entry_id (take k (timestampIndex store)))"
  have d: "distinct (map entry_id (timestampIndex store))"
    using assms(1) by (simp add: distinct_map_timestampIndex)
  have "distinct (take k (map entry_id (timestampIndex store)))"
    using d by (rule distinct_take)
  then have "card ?K = length (take k (map entry_id (timestampIndex store)))"
    by (simp add: take_map distinct_card del: set_map)
  then have cK: "card ?K = k" using assms(2) by (simp add: length_timestampIndex)
  have sub: "?K \<subseteq> set ?ids"
    using set_timestampIndex [of store] by (auto dest: in_set_takeD)
  have "length (evictOldest (timestampIndex store) 0 k store)
          = length (filter (\<lambda>i. i \<notin> ?K) ?ids)"
    by (simp add: evictOldest_filter filter_map comp_def del: set_map)
  also have "\<dots> = card ({i. i \<notin> ?K} \<inter> set ?ids)"
    using assms(1) by (rule distinct_length_filter)
  also have "{i. i \<notin> ?K} \<inter> set ?ids = set ?ids - ?K" by auto
  also have "card (set ?ids - ?K) = card (set ?ids) - card ?K"
    using sub by (intro card_Diff_subset) auto
  also have "card (set ?ids) = length store"
    using assms(1) by (simp add: distinct_card del: set_map)
  finally show ?thesis using cK by simp
qed

lemma distinct_evictOldest:
  assumes "distinct (map entry_id store)"
  shows "distinct (map entry_id (evictOldest cursor deleted k store))"
  using assms by (simp add: evictOldest_filter distinct_map_filter del: set_map)

lemma set_evictOldest: "set (evictOldest cursor deleted k store) \<subseteq> set store"
  by (auto simp: evictOldest_filter simp del: set_map)

text \<open>The store stays within the cap and keeps its ids pairwise distinct.\<close>

lemma addHistoryEntry_inv:
  assumes "distinct (map entry_id store)" and "length store \<le> MAX_HISTORY_ENTRIES"
  shows "distinct (map entry_id (snd (addHistoryEntry entry store)))
         \<and> length (snd (addHistoryEntry entry store)) \<le> MAX_HISTORY_ENTRIES"
proof (cases "length store \<ge> MAX_HISTORY_ENTRIES")
  case False
  then show ?thesis using assms
    by (auto simp: addHistoryEntry_def store_add_def Let_def)
next
  case True
  with assms(2) have len: "length store = MAX_HISTORY_ENTRIES" by simp
  let ?ev = "evictOldest (timestampIndex store) 0 (length store - MAX_HISTORY_ENTRIES + 1) store"
  have "length ?ev = length store - 1"
    using length_evictOldest [OF assms(1), of 1] len by (simp add: MAX_HISTORY_ENTRIES_def)
  then have l: "Suc (length ?ev) \<le> MAX_HISTORY_ENTRIES"
    using len by (simp add: MAX_HISTORY_ENTRIES_def)
  have d: "distinct (map entry_id ?ev)" using assms(1) by (rule distinct_evictOldest)
  show ?thesis using True assms l d
    by (auto simp: addHistoryEntry_def store_add_def Let_def)
qed

lemma addAll_inv:
  assumes "distinct (map entry_id store)" and "length store \<le> MAX_HISTORY_ENTRIES"
  shows "distinct (map entry_id (addAll entries store))
         \<and> length (addAll entries store) \<le> MAX_HISTORY_ENTRIES"
  using assms
proof (induction entries arbitrary: store)
  case Nil
  then show ?case by simp
next
  case (Cons e es)
  from addHistoryEntry_inv [OF Cons.prems, of e] Cons.IH show ?case by simp
qed

lemma addAll_below_cap:
  assumes "distinct (map entry_id (store @ entries))"
    and "length (store @ entries) \<le> MAX_HISTORY_ENTRIES"
  shows "addAll entries store = store @ entries"
  using assms
proof (induction entries arbitrary: store)
  case Nil
  then show ?case by simp
next
  case (Cons e es)
  have "snd (addHistoryEntry e store) = store @ [e]"
    using Cons.prems by (auto simp: addHistoryEntry_def store_add_def Let_def)
  moreover have "addAll es (store @ [e]) = (store @ [e]) @ es"
    using Cons.prems by (intro Cons.IH) auto
  ultimately show ?case by simp
qed

text \<open>
  An insert of a new id into a store of at least \<open>MAX_HISTORY_ENTRIES\<close> entries: the
  first \<open>count - 99\<close> entries of the index are removed, the entry is appended.
\<close>

lemma addHistoryEntry_at_cap:
  assumes "distinct (map entry_id store)" and "length store \<ge> MAX_HISTORY_ENTRIES"
    and "entry_id entry \<notin> set (map entry_id store)"
  shows "addHistoryEntry entry store
           = (Inr True,
              filter (\<lambda>e. e \<notin> set (take (length store - MAX_HISTORY_ENTRIES + 1) (timestampIndex store))) store
                @ [entry])"
proof -
  let ?k = "length store - MAX_HISTORY_ENTRIES + 1"
  have "entry_id entry \<notin> set (map entry_id (evictOldest (timestampIndex store) 0 ?k store))"
    using assms(3) set_evictOldest [of "timestampIndex store" 0 ?k store] by auto
  then show ?thesis
    using assms(2) evictOldest_entries [OF assms(1), of ?k]
    by (simp add: addHistoryEntry_def store_add_def Let_def del: set_map)
qed

lemma addHistoryEntry_rejected:
  assumes "length store < MAX_HISTORY_ENTRIES" and "entry_id entry \<in> set (map entry_id store)"
  shows "addHistoryEntry entry store = (Inl ''Failed to add history entry'', store)"
  using assms by (simp add: addHistoryEntry_def store_add_def Let_def del: set_map)

lemma addHistoryEntry_rejected_at_cap:
  assumes "distinct (map entry_id store)" and "length store \<ge> MAX_HISTORY_ENTRIES"
    and "e \<in> set store" and "entry_id e = entry_id entry"
    and "e \<notin> set (take (length store - MAX_HISTORY_ENTRIES + 1) (timestampIndex store))"
  shows "addHistoryEntry entry store = (Inl ''Failed to add history entry'', store)"
proof -
  let ?k = "length store - MAX_HISTORY_ENTRIES + 1"
  have "e \<in> set (evictOldest (timestampIndex store) 0 ?k store)"
    using assms(3,5) by (simp add: evictOldest_entries [OF assms(1)])
  then have "entry_id entry \<in> set (map entry_id (evictOldest (timestampIndex store) 0 ?k store))"
    using assms(4) by (metis image_eqI set_map)
  then show ?thesis using assms(2)
    by (simp add: addHistoryEntry_def store_add_def Let_def del: set_map)
qed

lemma oldest_first:
  assumes "store \<noteq> []" and "e \<in> set store"
  shows "timestamp (hd (timestampIndex store)) \<le> timestamp e"
proof -
  have ne: "timestampIndex store \<noteq> []"
    using assms(1) length_timestampIndex [of store] by auto
  then obtain x xs where x: "timestampIndex store = x # xs" by (cases "timestampIndex store") auto
  have "e \<in> set (x # xs)" using assms(2) set_timestampIndex [of store] x by simp
  moreover have "\<forall>y \<in> set xs. timestamp x \<le> timestamp y"
    using timestamps_ascending [of store] x by simp
  ultimately show ?thesis using x by auto
qed

text \<open>The hundred numbered entries have pairwise distinct ids of two characters.\<close>

lemma digit_inj:
  assumes "a < 10" and "b < 10" and "digit a = digit b"
  shows "a = b"
proof -
  have "distinct ''0123456789''" by simp
  moreover have "a < length ''0123456789''" "b < length ''0123456789''" using assms(1,2) by simp_all
  ultimately show ?thesis using assms(3) unfolding digit_def by (simp only: nth_eq_iff_index_eq)
qed

lemma numberedEntry_id_inj:
  assumes "n < 100" and "m < 100" and "entry_id (numberedEntry n) = entry_id (numberedEntry m)"
  shows "n = m"
proof -
  have "digit (n div 10) = digit (m div 10)" "digit (n mod 10) = digit (m mod 10)"
    using assms(3) by (simp_all add: numberedEntry_def historyEntry_def)
  moreover have "n div 10 < 10" "m div 10 < 10" using assms(1,2) by simp_all
  ultimately have "n div 10 = m div 10" "n mod 10 = m mod 10"
    by (auto intro: digit_inj)
  then show ?thesis by (metis div_mult_mod_eq)
qed

lemma hundredEntries_distinct: "distinct (map entry_id hundredEntries)"
proof -
  have "inj_on (\<lambda>n. entry_id (numberedEntry n)) {0..<100}"
    by (rule inj_onI) (auto dest: numberedEntry_id_inj)
  then show ?thesis by (simp add: hundredEntries_def distinct_map comp_def inj_on_def)
qed

lemma hundredEntries_length: "length hundredEntries = 100"
  by (simp add: hundredEntries_def)

lemma hundredEntries_ids: "i \<in> set (map entry_id hundredEntries) \<Longrightarrow> length i = 2"
  by (auto simp: hundredEntries_def numberedEntry_def historyEntry_def)

lemma hundredEntries_timestamps: "e \<in> set hundredEntries \<Longrightarrow> timestamp e < 100"
  by (auto simp: hundredEntries_def numberedEntry_def historyEntry_def)

lemma addAll_hundredEntries: "addAll hundredEntries [] = hundredEntries"
  using addAll_below_cap [of "[]" hundredEntries]
  by (simp add: hundredEntries_distinct hundredEntries_length MAX_HISTORY_ENTRIES_def)

text \<open>
  Claim C2, amended. From the empty store, after every sequence of \<open>addHistoryEntry\<close>
  calls the store holds at most \<open>MAX_HISTORY_ENTRIES = 100\<close> entries. When an entry
  whose id is not in the store is inserted into a store that such a sequence has filled to
  the cap, the promise resolves to true, the store again holds exactly 100 entries, the
  entry that the ascending scan of the timestamp index meets first (no entry of the store
  has a smaller timestamp) is gone, the new entry is there, and every other entry is
  kept.
\<close>

theorem history_cap:
  "length (addAll (take n entries) []) \<le> MAX_HISTORY_ENTRIES
   \<and> (store = addAll entries [] \<and> length store \<ge> MAX_HISTORY_ENTRIES
        \<and> entry_id entry \<notin> set (map entry_id store)
      \<longrightarrow> fst (addHistoryEntry entry store) = Inr True
        \<and> length (snd (addHistoryEntry entry store)) = MAX_HISTORY_ENTRIES
        \<and> hd (timestampIndex store) \<in> set store
        \<and> (\<forall>e \<in> set store. timestamp (hd (timestampIndex store)) \<le> timestamp e)
        \<and> hd (timestampIndex store) \<notin> set (snd (addHistoryEntry entry store))
        \<and> entry \<in> set (snd (addHistoryEntry entry store))
        \<and> set (snd (addHistoryEntry entry store)) = insert entry (set store - {hd (timestampIndex store)}))
   \<and> MAX_HISTORY_ENTRIES = 100"
proof (intro conjI impI)
  show "length (addAll (take n entries) []) \<le> MAX_HISTORY_ENTRIES"
    using addAll_inv [of "[]" "take n entries"] by simp
next
  show "MAX_HISTORY_ENTRIES = 100" by (simp add: MAX_HISTORY_ENTRIES_def)
next
  assume a: "store = addAll entries [] \<and> length store \<ge> MAX_HISTORY_ENTRIES
        \<and> entry_id entry \<notin> set (map entry_id store)"
  from a have ge: "length store \<ge> MAX_HISTORY_ENTRIES"
    and fresh: "entry_id entry \<notin> set (map entry_id store)" by blast+
  have inv: "distinct (map entry_id store)" "length store \<le> MAX_HISTORY_ENTRIES"
    using a addAll_inv [of "[]" entries] by simp_all
  from inv(2) ge have len: "length store = MAX_HISTORY_ENTRIES" by (rule le_antisym)
  then have ne: "store \<noteq> []" by (auto simp: MAX_HISTORY_ENTRIES_def)
  then have "timestampIndex store \<noteq> []" using length_timestampIndex [of store] by auto
  then have t1: "take 1 (timestampIndex store) = [hd (timestampIndex store)]"
    by (cases "timestampIndex store") auto
  have mem: "hd (timestampIndex store) \<in> set store"
    using \<open>timestampIndex store \<noteq> []\<close> set_timestampIndex [of store] by (metis hd_in_set)
  have r: "addHistoryEntry entry store
             = (Inr True, filter (\<lambda>e. e \<noteq> hd (timestampIndex store)) store @ [entry])"
    using addHistoryEntry_at_cap [OF inv(1) ge fresh] len t1 by simp
  have "length (filter (\<lambda>e. e \<noteq> hd (timestampIndex store)) store) = length store - 1"
    using length_evictOldest [OF inv(1), of 1] evictOldest_entries [OF inv(1), of 1] ne t1
    by (simp add: Suc_leI)
  then have l: "length (snd (addHistoryEntry entry store)) = MAX_HISTORY_ENTRIES"
    using r len by (simp add: MAX_HISTORY_ENTRIES_def)
  have neq: "hd (timestampIndex store) \<noteq> entry" using mem fresh by auto
  show "fst (addHistoryEntry entry store) = Inr True" using r by simp
  show "length (snd (addHistoryEntry entry store)) = MAX_HISTORY_ENTRIES" by (rule l)
  show "hd (timestampIndex store) \<in> set store" by (rule mem)
  show "\<forall>e \<in> set store. timestamp (hd (timestampIndex store)) \<le> timestamp e"
    using oldest_first [OF ne] by blast
  show "hd (timestampIndex store) \<notin> set (snd (addHistoryEntry entry store))"
    using r neq by simp
  show "entry \<in> set (snd (addHistoryEntry entry store))" using r by simp
  show "set (snd (addHistoryEntry entry store)) = insert entry (set store - {hd (timestampIndex store)})"
    using r by auto
qed

theorem history_cap_witness:
  "addAll hundredEntries [] = addAll hundredEntries []
   \<and> length (addAll hundredEntries []) \<ge> MAX_HISTORY_ENTRIES
   \<and> entry_id (historyEntry ''new'' 101) \<notin> set (map entry_id (addAll hundredEntries []))
   \<and> fst (addHistoryEntry (historyEntry ''new'' 101) (addAll hundredEntries [])) = Inr True
   \<and> length (snd (addHistoryEntry (historyEntry ''new'' 101) (addAll hundredEntries [])))
       = MAX_HISTORY_ENTRIES
   \<and> hd (timestampIndex (addAll hundredEntries []))
       \<notin> set (snd (addHistoryEntry (historyEntry ''new'' 101) (addAll hundredEntries [])))
   \<and> historyEntry ''new'' 101
       \<in> set (snd (addHistoryEntry (historyEntry ''new'' 101) (addAll hundredEntries [])))"
proof -
  have a: "length (addAll hundredEntries []) \<ge> MAX_HISTORY_ENTRIES"
    by (simp add: addAll_hundredEntries hundredEntries_length MAX_HISTORY_ENTRIES_def)
  have b: "entry_id (historyEntry ''new'' 101) \<notin> set (map entry_id (addAll hundredEntries []))"
    using hundredEntries_ids [of "''new''"]
    by (auto simp: addAll_hundredEntries historyEntry_def simp del: set_map)
  show ?thesis
    using a b history_cap [of 100 hundredEntries "addAll hundredEntries []" "historyEntry ''new'' 101"]
    by blast
qed

text \<open>
  A hundred entries are inserted, then an entry whose id one of them (not the oldest)
  already has: the \<open>add\<close> request fails, the promise is rejected, the store is as
  before, and the entry handed in is not in it.
\<close>

theorem history_duplicate_id_counterexample:
  "length (addAll hundredEntries []) = 100
   \<and> fst (addHistoryEntry (historyEntry ''05'' 200) (addAll hundredEntries []))
       = Inl ''Failed to add history entry''
   \<and> historyEntry ''05'' 200
       \<notin> set (snd (addHistoryEntry (historyEntry ''05'' 200) (addAll hundredEntries [])))
   \<and> snd (addHistoryEntry (historyEntry ''05'' 200) (addAll hundredEntries []))
       = addAll hundredEntries []"
proof -
  have five: "numberedEntry 5 \<in> set hundredEntries" by (simp add: hundredEntries_def)
  have id5: "entry_id (numberedEntry 5) = entry_id (historyEntry ''05'' 200)"
    by (simp add: numberedEntry_def historyEntry_def digit_def)
  have ne: "hundredEntries \<noteq> []" using hundredEntries_length by auto
  have idx: "timestampIndex hundredEntries \<noteq> []"
    using length_timestampIndex [of hundredEntries] hundredEntries_length by auto
  have "hd (timestampIndex hundredEntries) \<in> set hundredEntries"
    using idx set_timestampIndex [of hundredEntries] by (metis hd_in_set)
  moreover have "numberedEntry 0 \<in> set hundredEntries" by (simp add: hundredEntries_def)
  ultimately have "timestamp (hd (timestampIndex hundredEntries)) \<le> timestamp (numberedEntry 0)"
    using oldest_first [OF ne, of "numberedEntry 0"] by auto
  then have "hd (timestampIndex hundredEntries) \<noteq> numberedEntry 5"
    by (auto simp: numberedEntry_def historyEntry_def)
  moreover have "take 1 (timestampIndex hundredEntries) = [hd (timestampIndex hundredEntries)]"
    using idx by (cases "timestampIndex hundredEntries") auto
  ultimately have kept: "numberedEntry 5 \<notin> set (take (length hundredEntries - MAX_HISTORY_ENTRIES + 1)
                                                 (timestampIndex hundredEntries))"
    by (simp add: hundredEntries_length MAX_HISTORY_ENTRIES_def)
  have r: "addHistoryEntry (historyEntry ''05'' 200) hundredEntries
             = (Inl ''Failed to add history entry'', hundredEntries)"
    using addHistoryEntry_rejected_at_cap [OF hundredEntries_distinct _ five id5 kept]
    by (simp add: hundredEntries_length MAX_HISTORY_ENTRIES_def)
  have "historyEntry ''05'' 200 \<notin> set hundredEntries"
    using hundredEntries_timestamps [of "historyEntry ''05'' 200"] by (auto simp: historyEntry_def)
  with r show ?thesis by (simp add: addAll_hundredEntries hundredEntries_length)
qed

section \<open>Batch processing hook: results\<close>

lemma processNextInQueue_fields:
  "totalCount (processNextInQueue now s) = totalCount s"
  "batch_error (processNextInQueue now s) = batch_error s"
  by (simp_all add: processNextInQueue_def split: option.splits list.splits)

lemma checkCompletion_fields:
  "totalCount (checkCompletion s) = totalCount s"
  "batch_error (checkCompletion s) = batch_error s"
  "individualProgress (checkCompletion s) = individualProgress s"
  by (simp_all add: checkCompletion_def)

lemma releaseWorker_fields:
  "batch_error (releaseWorker k s) = batch_error s"
  "individualProgress (releaseWorker k s) = individualProgress s"
  "pendingQueue (releaseWorker k s) = pendingQueue s"
  by (simp_all add: releaseWorker_def)

lemma funpow_processNextInQueue_totalCount:
  "totalCount ((processNextInQueue now ^^ n) s) = totalCount s"
  by (induction n) (simp_all add: processNextInQueue_fields)

lemma set_mapSet_keys: "set (map fst (mapSet k v m)) = insert k (set (map fst m))"
  by (induction k v m rule: mapSet.induct) (simp_all add: insert_commute)

lemma map_of_mapSet: "map_of (mapSet k v m) = (map_of m)(k \<mapsto> v)"
  by (induction k v m rule: mapSet.induct) auto

text \<open>
  The keys of the progress map and the ids of the pending queue stay among the submitted
  ids: the loop of \<open>processBatch\<close> adds submitted ids only, and \<open>processNextInQueue\<close>
  moves an id from the queue to the map.
\<close>

lemma enqueueImage_fields:
  "totalCount (fst (enqueueImage imgs i acc)) = totalCount (fst acc)"
  "set (map fst (individualProgress (fst (enqueueImage imgs i acc))))
       \<union> set (pendingQueue (fst (enqueueImage imgs i acc)))
     \<subseteq> set (map fst (individualProgress (fst acc))) \<union> set (pendingQueue (fst acc)) \<union> {i}"
  by (auto simp: enqueueImage_def Let_def set_mapSet_keys split: option.splits simp del: set_map)

lemma fold_enqueueImage_fields:
  "totalCount (fst (fold (enqueueImage imgs) imageIds acc)) = totalCount (fst acc)
   \<and> set (map fst (individualProgress (fst (fold (enqueueImage imgs) imageIds acc))))
         \<union> set (pendingQueue (fst (fold (enqueueImage imgs) imageIds acc)))
       \<subseteq> set (map fst (individualProgress (fst acc))) \<union> set (pendingQueue (fst acc)) \<union> set imageIds"
proof (induction imageIds arbitrary: acc)
  case Nil
  then show ?case by simp
next
  case (Cons i imageIds)
  from Cons.IH [of "enqueueImage imgs i acc"] enqueueImage_fields [of imgs i acc]
  show ?case by (simp del: set_map) blast
qed

lemma processNextInQueue_keys:
  "set (map fst (individualProgress (processNextInQueue now s))) \<union> set (pendingQueue (processNextInQueue now s))
     \<subseteq> set (map fst (individualProgress s)) \<union> set (pendingQueue s)"
  by (auto simp: processNextInQueue_def set_mapSet_keys split: option.splits list.splits
      simp del: set_map)

lemma funpow_processNextInQueue_keys:
  "set (map fst (individualProgress ((processNextInQueue now ^^ n) s)))
     \<union> set (pendingQueue ((processNextInQueue now ^^ n) s))
     \<subseteq> set (map fst (individualProgress s)) \<union> set (pendingQueue s)"
proof (induction n)
  case 0
  then show ?case by simp
next
  case (Suc n)
  from processNextInQueue_keys [of now "(processNextInQueue now ^^ n) s"] Suc show ?case
    by (simp del: set_map) blast
qed

lemma processBatch_totalCount:
  assumes "imageIds \<noteq> []"
  shows "\<exists>s'. processBatch imageIds options now s = Inr s' \<and> totalCount s' = length imageIds
           \<and> set (map fst (individualProgress s')) \<subseteq> set imageIds"
proof -
  let ?s2 = "(initializeWorkerPool (s\<lparr>batch_isProcessing := True, batch_error := None, completedCount := 0,
                   totalCount := length imageIds, individualProgress := [],
                   optionsRef := Some (validateCompressionOptions options),
                   abortController := Some False\<rparr>))\<lparr>pendingQueue := []\<rparr>"
  obtain s3 items where e: "fold (enqueueImage (images s)) imageIds (?s2, []) = (s3, items)"
    by (metis surj_pair)
  let ?s4 = "s3\<lparr>processingStore := addToQueue items (processingStore s3)\<rparr>"
  let ?s' = "(processNextInQueue now ^^ MAX_CONCURRENT_PROCESSING) ?s4"
  have r: "processBatch imageIds options now s = Inr ?s'"
    using assms e by (simp add: processBatch_def Let_def)
  have "totalCount s3 = length imageIds"
    using fold_enqueueImage_fields [of "images s" imageIds "(?s2, [])"] e
    by (simp add: initializeWorkerPool_def)
  then have t: "totalCount ?s' = length imageIds"
    by (simp add: funpow_processNextInQueue_totalCount)
  have "set (map fst (individualProgress s3)) \<union> set (pendingQueue s3) \<subseteq> set imageIds"
    using fold_enqueueImage_fields [of "images s" imageIds "(?s2, [])"] e
    by (simp add: initializeWorkerPool_def)
  then have "set (map fst (individualProgress ?s')) \<subseteq> set imageIds"
    using funpow_processNextInQueue_keys [where now = now and n = MAX_CONCURRENT_PROCESSING and s = ?s4]
    by (simp del: set_map) blast
  with r t show ?thesis by blast
qed

lemma foldl_progress_Fin:
  assumes "map (\<lambda>entry. bp_progress (snd entry)) m = map Fin ps"
  shows "foldl (\<lambda>acc item. js_add acc (bp_progress (snd item))) (Fin a) m = Fin (a + sum_list ps)"
  using assms
proof (induction m arbitrary: a ps)
  case Nil
  then show ?case by simp
next
  case (Cons x m)
  then obtain p ps' where ps: "ps = p # ps'" "bp_progress (snd x) = Fin p"
    "map (\<lambda>entry. bp_progress (snd entry)) m = map Fin ps'"
    by (cases ps) auto
  from Cons.IH [OF ps(3), of "a + p"] ps(1,2) show ?case by (simp add: add.assoc)
qed

lemma releaseWorker_totalCount: "totalCount (releaseWorker k s) = totalCount s"
  by (simp add: releaseWorker_def)

lemma handleMessage_totalCount: "totalCount (handleMessage k imgId msg now s) = totalCount s"
  by (simp add: handleMessage_def checkCompletion_fields processNextInQueue_fields
      releaseWorker_totalCount split: WorkerResponse.splits option.splits)

lemma fileReadFailed_totalCount: "totalCount (fileReadFailed k imgId message now s) = totalCount s"
  by (simp add: fileReadFailed_def checkCompletion_fields processNextInQueue_fields)

lemma fold_cancelItem_totalCount: "totalCount (fold cancelItem entries s) = totalCount s"
  by (induction entries arbitrary: s) (simp_all add: cancelItem_def)

lemma cancel_totalCount: "totalCount (cancel s) = totalCount s"
  by (simp add: cancel_def Let_def fold_cancelItem_totalCount)

lemma applyEvent_totalCount:
  "totalCount (applyEvent ev s) = declaredBatchSize [ev] (totalCount s)"
proof (cases ev)
  case (Submit imageIds options now)
  show ?thesis
  proof (cases "imageIds = []")
    case True
    with Submit show ?thesis by (simp add: processBatch_def)
  next
    case False
    from processBatch_totalCount [OF False, of options now s] Submit False show ?thesis by auto
  qed
next
  case (WorkerMessage k imgId msg now)
  then show ?thesis by (simp add: handleMessage_totalCount)
next
  case (FileReadFailed k imgId message now)
  then show ?thesis by (simp add: fileReadFailed_totalCount)
next
  case Cancel
  then show ?thesis by (simp add: cancel_totalCount)
qed

lemma declaredBatchSize_Cons:
  "declaredBatchSize (ev # evs) d = declaredBatchSize evs (declaredBatchSize [ev] d)"
  by (cases ev) simp_all

lemma runEvents_totalCount:
  "totalCount (runEvents evs s) = declaredBatchSize evs (totalCount s)"
proof (induction evs arbitrary: s)
  case Nil
  then show ?case by simp
next
  case (Cons ev evs)
  have "totalCount (runEvents (ev # evs) s) = declaredBatchSize evs (totalCount (applyEvent ev s))"
    using Cons.IH [of "applyEvent ev s"] by simp
  also have "\<dots> = declaredBatchSize evs (declaredBatchSize [ev] (totalCount s))"
    by (simp only: applyEvent_totalCount)
  also have "\<dots> = declaredBatchSize (ev # evs) (totalCount s)"
    by (rule declaredBatchSize_Cons [symmetric])
  finally show ?case .
qed

text \<open>
  Claim C7, amended. After every sequence of events (calls of \<open>processBatch\<close>, worker
  messages, failed file reads, calls of \<open>cancel\<close>), \<open>totalCount\<close> is the declared
  batch size: the length of the \<open>imageIds\<close> list of the last submission that was not
  empty, not the number of its active items (right after such a submission the progress
  map has entries for submitted ids only), and what it was at the start if there was no
  such submission. The overall progress is 0 when that count is 0, as at a fresh hook;
  otherwise it is the sum of the per-item progress values, added up as JavaScript numbers,
  divided by the count and rounded, which for finite values is
  \<open>round(sum / count)\<close>. It is computed from the progress map and the count alone. A
  submission of the empty list changes nothing, the count and the overall progress
  included.
\<close>

theorem overallProgress_formula:
  "totalCount (runEvents evs s) = declaredBatchSize evs (totalCount s)
   \<and> (declaredBatchSize evs (totalCount s) = 0 \<longrightarrow> overallProgress (runEvents evs s) = Fin 0)
   \<and> (declaredBatchSize evs (totalCount s) \<noteq> 0
        \<longrightarrow> overallProgress (runEvents evs s)
              = Math_round (js_div
                  (foldl js_add (Fin 0)
                     (map (\<lambda>entry. bp_progress (snd entry)) (individualProgress (runEvents evs s))))
                  (Fin (real (declaredBatchSize evs (totalCount s))))))
   \<and> (declaredBatchSize evs (totalCount s) \<noteq> 0
        \<and> map (\<lambda>entry. bp_progress (snd entry)) (individualProgress (runEvents evs s)) = map Fin ps
        \<longrightarrow> overallProgress (runEvents evs s)
              = Fin (of_int \<lfloor>sum_list ps / real (declaredBatchSize evs (totalCount s)) + 1 / 2\<rfloor>))
   \<and> (individualProgress s = individualProgress t \<and> totalCount s = totalCount t
        \<longrightarrow> overallProgress s = overallProgress t)
   \<and> processBatch [] options now s = Inr s
   \<and> (imageIds \<noteq> []
        \<longrightarrow> (\<exists>s'. processBatch imageIds options now s = Inr s' \<and> totalCount s' = length imageIds
                  \<and> set (map fst (individualProgress s')) \<subseteq> set imageIds))"
proof (intro conjI impI)
  let ?s' = "runEvents evs s"
  let ?d = "declaredBatchSize evs (totalCount s)"
  show t: "totalCount ?s' = ?d" by (rule runEvents_totalCount)
  show "overallProgress ?s' = Fin 0" if "?d = 0"
    using that t by (simp add: overallProgress_def)
  show "overallProgress ?s'
          = Math_round (js_div
              (foldl js_add (Fin 0) (map (\<lambda>entry. bp_progress (snd entry)) (individualProgress ?s')))
              (Fin (real ?d)))"
    if "?d \<noteq> 0"
    using that t by (simp add: overallProgress_def Let_def foldl_map)
  show "overallProgress ?s' = Fin (of_int \<lfloor>sum_list ps / real ?d + 1 / 2\<rfloor>)"
    if "?d \<noteq> 0 \<and> map (\<lambda>entry. bp_progress (snd entry)) (individualProgress ?s') = map Fin ps"
    using that t foldl_progress_Fin [of "individualProgress ?s'" ps 0]
    by (simp add: overallProgress_def Let_def)
  show "overallProgress s = overallProgress t"
    if "individualProgress s = individualProgress t \<and> totalCount s = totalCount t"
    using that by (simp add: overallProgress_def)
  show "processBatch [] options now s = Inr s" by (simp add: processBatch_def)
  show "\<exists>s'. processBatch imageIds options now s = Inr s' \<and> totalCount s' = length imageIds
           \<and> set (map fst (individualProgress s')) \<subseteq> set imageIds"
    if "imageIds \<noteq> []"
    using that by (rule processBatch_totalCount)
qed

lemma batchStarted_eq:
  "batchStarted =
     \<lparr>batch_isProcessing = True,
      individualProgress = [(''p'', \<lparr>bp_imageId = ''p'', bp_progress = Fin 0, bp_status = Processing\<rparr>)],
      completedCount = 0, totalCount = 2, batch_error = None,
      workerPool = [\<lparr>busy = True, currentImageId = Some ''p'', onmessage = Some ''p''\<rparr>,
                    idleWorker, idleWorker, idleWorker],
      abortController = Some False, pendingQueue = [],
      optionsRef = Some fullHD,
      processingStore =
        \<lparr>queue = [\<lparr>item_id = ''p'', imageId = ''p'', status = Processing, progress = Fin 0,
                   startTime = Some 7, endTime = None\<rparr>],
         isProcessing = True\<rparr>,
      images = [\<lparr>image_id = ''p'', image_status = ImageProcessing, compressed = None, image_error = None\<rparr>,
                \<lparr>image_id = ''c'', image_status = ImageComplete, compressed = None, image_error = None\<rparr>]\<rparr>"
proof -
  have q: "validateCompressionOptions fullHD = fullHD"
    by (simp add: validateCompressionOptions_def clampQuality_def fullHD_def noConstraints_def
        Math_min_def Math_max_def)
  show ?thesis
    by (simp add: batchStarted_def processBatch_def q initialBatch_def twoImages_def
        initializeWorkerPool_def enqueueImage_def MAX_CONCURRENT_PROCESSING_def eval_nat_numeral
        processNextInQueue_def aborted_def idleWorker_def initialStore_def addToQueue_def
        updateStatus_def updateQueueItem_def applyUpdates_def noUpdates_def Let_def)
qed

lemma batchFinished_fields:
  "individualProgress batchFinished
     = [(''p'', \<lparr>bp_imageId = ''p'', bp_progress = Fin 100, bp_status = Complete\<rparr>)]"
  "totalCount batchFinished = 2"
  "completedCount batchFinished = 1"
  "batch_isProcessing batchFinished = False"
  by (simp_all add: batchFinished_def batchStarted_eq handleMessage_def aborted_def
      releaseWorker_def processNextInQueue_def checkCompletion_def idleWorker_def)

lemma sampleEvents_run:
  "runEvents [Submit [''p'', ''c''] fullHD 7] (initialBatch twoImages) = batchStarted"
  "individualProgress (runEvents sampleEvents (initialBatch twoImages))
     = [(''p'', \<lparr>bp_imageId = ''p'', bp_progress = Fin 100, bp_status = Complete\<rparr>)]"
proof -
  have p: "processBatch [''p'', ''c''] fullHD 7 (initialBatch twoImages) = Inr batchStarted"
    by (simp add: batchStarted_def processBatch_def Let_def split: prod.splits)
  show "runEvents [Submit [''p'', ''c''] fullHD 7] (initialBatch twoImages) = batchStarted"
    by (simp add: p)
  have e: "processBatch [] fullHD 10 x = Inr x" for x by (simp add: processBatch_def)
  have "runEvents sampleEvents (initialBatch twoImages)
          = handleMessage 0 ''p'' (CompleteMsg (Some sampleResult)) 9
              (handleMessage 0 ''p'' (ProgressMsg (Some (Fin 30))) 8 batchStarted)"
    by (simp add: sampleEvents_def p e)
  then show "individualProgress (runEvents sampleEvents (initialBatch twoImages))
     = [(''p'', \<lparr>bp_imageId = ''p'', bp_progress = Fin 100, bp_status = Complete\<rparr>)]"
    by (simp add: batchStarted_eq handleMessage_def aborted_def releaseWorker_def
        processNextInQueue_def checkCompletion_def idleWorker_def)
qed

theorem overallProgress_formula_witness:
  "declaredBatchSize [] (totalCount (initialBatch twoImages)) = 0
   \<and> overallProgress (runEvents [] (initialBatch twoImages)) = Fin 0
   \<and> declaredBatchSize sampleEvents (totalCount (initialBatch twoImages)) = 2
   \<and> totalCount (runEvents sampleEvents (initialBatch twoImages)) = 2
   \<and> length (individualProgress (runEvents sampleEvents (initialBatch twoImages))) = 1
   \<and> overallProgress (runEvents sampleEvents (initialBatch twoImages)) = Fin 50
   \<and> (\<exists>s'. processBatch [''p'', ''c''] fullHD 7 (initialBatch twoImages) = Inr s'
          \<and> totalCount s' = length [''p'', ''c'']
          \<and> set (map fst (individualProgress s')) \<subseteq> set [''p'', ''c''])"
proof -
  have a: "declaredBatchSize [] (totalCount (initialBatch twoImages)) = 0"
    by (simp add: initialBatch_def)
  have b: "declaredBatchSize sampleEvents (totalCount (initialBatch twoImages)) = 2"
    by (simp add: sampleEvents_def initialBatch_def)
  have c: "declaredBatchSize sampleEvents (totalCount (initialBatch twoImages)) \<noteq> 0
           \<and> map (\<lambda>entry. bp_progress (snd entry))
                 (individualProgress (runEvents sampleEvents (initialBatch twoImages))) = map Fin [100]"
    using b by (simp add: sampleEvents_run)
  have d: "[''p'', ''c''] \<noteq> []" by simp
  have z: "overallProgress (runEvents [] (initialBatch twoImages)) = Fin 0"
    using a overallProgress_formula [of "[]" "initialBatch twoImages"] by blast
  have t: "totalCount (runEvents sampleEvents (initialBatch twoImages))
             = declaredBatchSize sampleEvents (totalCount (initialBatch twoImages))"
    using overallProgress_formula [of sampleEvents "initialBatch twoImages"] by blast
  have "overallProgress (runEvents sampleEvents (initialBatch twoImages))
          = Fin (of_int \<lfloor>sum_list [100]
              / real (declaredBatchSize sampleEvents (totalCount (initialBatch twoImages))) + 1 / 2\<rfloor>)"
    using c overallProgress_formula [of sampleEvents "initialBatch twoImages" "[100]"] by blast
  then have o: "overallProgress (runEvents sampleEvents (initialBatch twoImages)) = Fin 50"
    by (simp add: b)
  have e: "\<exists>s'. processBatch [''p'', ''c''] fullHD 7 (initialBatch twoImages) = Inr s'
          \<and> totalCount s' = length [''p'', ''c'']
          \<and> set (map fst (individualProgress s')) \<subseteq> set [''p'', ''c'']"
    using d overallProgress_formula [of "[]" "initialBatch twoImages" _ _ fullHD 7 "[''p'', ''c'']"]
    by blast
  show ?thesis using a b z t o e by (simp add: sampleEvents_run)
qed

text \<open>
  A batch of two images, one of them already complete, is submitted and its one active
  item completes: the overall progress is 50. The empty list is submitted next. Its
  declared size is 0, but the call changes nothing and the overall progress is still 50.
\<close>

theorem overallProgress_empty_submission_counterexample:
  "overallProgress batchFinished = Fin 50
   \<and> overallProgress (applyEvent (Submit [] fullHD 10) batchFinished) = Fin 50"
proof -
  have "overallProgress batchFinished = Fin 50"
    by (simp add: overallProgress_def batchFinished_fields)
  then show ?thesis by (simp add: processBatch_def)
qed

lemma processNextInQueue_map_of:
  assumes "i \<notin> set (pendingQueue s)"
  shows "map_of (individualProgress (processNextInQueue now s)) i = map_of (individualProgress s) i"
  using assms
  by (auto simp: processNextInQueue_def map_of_mapSet split: option.splits list.splits)

text \<open>
  The images of one id are touched by \<open>processNextInQueue\<close> only if that id is the
  head of the pending queue.
\<close>

lemma updateStatus_other:
  assumes "j \<noteq> i"
  shows "map image_id (updateStatus j st imgs) = map image_id imgs"
    and "filter (\<lambda>img. image_id img = i) (updateStatus j st imgs)
           = filter (\<lambda>img. image_id img = i) imgs"
  using assms by (induction imgs) (auto simp: updateStatus_def)

lemma updateStatus_ids: "map image_id (updateStatus j st imgs) = map image_id imgs"
  by (induction imgs) (auto simp: updateStatus_def)

lemma processNextInQueue_images:
  assumes "i \<notin> set (pendingQueue s)"
  shows "map image_id (images (processNextInQueue now s)) = map image_id (images s)"
    and "filter (\<lambda>img. image_id img = i) (images (processNextInQueue now s))
           = filter (\<lambda>img. image_id img = i) (images s)"
  using assms
  by (auto simp: processNextInQueue_def updateStatus_ids updateStatus_other(2)
      split: option.splits list.splits)

lemma checkCompletion_images: "images (checkCompletion s) = images s"
  by (simp add: checkCompletion_def)

lemma setImageError_images:
  "map image_id (setImageError i msg imgs) = map image_id imgs"
  "filter (\<lambda>img. image_id img = i) (setImageError i msg imgs)
     = map (\<lambda>img. img\<lparr>image_error := Some msg, image_status := ImageError\<rparr>)
         (filter (\<lambda>img. image_id img = i) imgs)"
  by (induction imgs) (auto simp: setImageError_def)

lemma recorded_on_images:
  assumes "filter (\<lambda>img. image_id img = i) imgs'
             = map (\<lambda>img. img\<lparr>image_error := Some msg, image_status := ImageError\<rparr>)
                 (filter (\<lambda>img. image_id img = i) imgs)"
    and "img \<in> set imgs'" and "image_id img = i"
  shows "image_status img = ImageError \<and> image_error img = Some msg"
proof -
  have "img \<in> set (filter (\<lambda>img. image_id img = i) imgs')" using assms(2,3) by simp
  then show ?thesis unfolding assms(1) by auto
qed

lemma fileReadFailed_recorded:
  assumes "imgId \<notin> set (pendingQueue s)"
  shows "map_of (individualProgress (fileReadFailed k imgId message now s)) imgId
           = Some \<lparr>bp_imageId = imgId, bp_progress = Fin 0, bp_status = Error\<rparr>"
    and "map image_id (images (fileReadFailed k imgId message now s)) = map image_id (images s)"
    and "filter (\<lambda>img. image_id img = imgId) (images (fileReadFailed k imgId message now s))
           = map (\<lambda>img. img\<lparr>image_error := Some (''Failed to read file: '' @ message),
                              image_status := ImageError\<rparr>)
               (filter (\<lambda>img. image_id img = imgId) (images s))"
  using assms
  by (simp_all add: fileReadFailed_def checkCompletion_fields checkCompletion_images
      processNextInQueue_map_of processNextInQueue_images map_of_mapSet setImageError_images)

lemma handleMessage_error_recorded:
  assumes "k < length (workerPool s)" and "onmessage (workerPool s ! k) = Some imgId"
    and "\<not> aborted s" and "imgId \<notin> set (pendingQueue s)"
  shows "map_of (individualProgress (handleMessage k imgId (ErrorMsg e) now s)) imgId
           = Some \<lparr>bp_imageId = imgId, bp_progress = Fin 0, bp_status = Error\<rparr>"
    and "map image_id (images (handleMessage k imgId (ErrorMsg e) now s)) = map image_id (images s)"
    and "filter (\<lambda>img. image_id img = imgId) (images (handleMessage k imgId (ErrorMsg e) now s))
           = map (\<lambda>img. img\<lparr>image_error := Some (workerErrorMessage e), image_status := ImageError\<rparr>)
               (filter (\<lambda>img. image_id img = imgId) (images s))"
  using assms
  by (simp_all add: handleMessage_def checkCompletion_fields checkCompletion_images
      processNextInQueue_map_of processNextInQueue_images map_of_mapSet setImageError_images
      releaseWorker_def workerErrorMessage_def)

text \<open>
  Claim C9, amended. \<open>processBatch\<close> with an empty list of image ids returns at once:
  nothing is thrown and the state, its \<open>error\<close> field included, is the one before the
  call. A worker's error message and a failed read of a file leave the batch-level
  \<open>error\<close> as it is. Each is recorded on the item, provided its id is not waiting in
  the pending queue (and, for the worker's message, its handler is installed and the batch
  not aborted): the entry of the id in the progress map becomes status \<open>error\<close> with
  progress 0, and every image of that id gets the status \<open>error\<close> and the message
  (\<open>workerError || 'Compression failed'\<close>, or \<open>'Failed to read file: '\<close> followed by
  the message of the failure), while the list of images keeps its ids.
\<close>

theorem processBatch_empty_is_silent:
  "processBatch [] options now s = Inr s
   \<and> batch_error (handleMessage k imgId (ErrorMsg e) now s) = batch_error s
   \<and> batch_error (fileReadFailed k imgId message now s) = batch_error s
   \<and> (k < length (workerPool s) \<and> onmessage (workerPool s ! k) = Some imgId \<and> \<not> aborted s
        \<and> imgId \<notin> set (pendingQueue s)
      \<longrightarrow> map_of (individualProgress (handleMessage k imgId (ErrorMsg e) now s)) imgId
            = Some \<lparr>bp_imageId = imgId, bp_progress = Fin 0, bp_status = Error\<rparr>
          \<and> map image_id (images (handleMessage k imgId (ErrorMsg e) now s)) = map image_id (images s)
          \<and> (\<forall>img \<in> set (images (handleMessage k imgId (ErrorMsg e) now s)).
                image_id img = imgId
                \<longrightarrow> image_status img = ImageError \<and> image_error img = Some (workerErrorMessage e)))
   \<and> (imgId \<notin> set (pendingQueue s)
      \<longrightarrow> map_of (individualProgress (fileReadFailed k imgId message now s)) imgId
            = Some \<lparr>bp_imageId = imgId, bp_progress = Fin 0, bp_status = Error\<rparr>
          \<and> map image_id (images (fileReadFailed k imgId message now s)) = map image_id (images s)
          \<and> (\<forall>img \<in> set (images (fileReadFailed k imgId message now s)).
                image_id img = imgId
                \<longrightarrow> image_status img = ImageError
                    \<and> image_error img = Some (''Failed to read file: '' @ message)))"
proof (intro conjI impI ballI)
  show "processBatch [] options now s = Inr s" by (simp add: processBatch_def)
  show "batch_error (handleMessage k imgId (ErrorMsg e) now s) = batch_error s"
    by (simp add: handleMessage_def checkCompletion_fields processNextInQueue_fields
        releaseWorker_fields)
  show "batch_error (fileReadFailed k imgId message now s) = batch_error s"
    by (simp add: fileReadFailed_def checkCompletion_fields processNextInQueue_fields)
next
  assume h: "k < length (workerPool s) \<and> onmessage (workerPool s ! k) = Some imgId \<and> \<not> aborted s
        \<and> imgId \<notin> set (pendingQueue s)"
  then have h': "k < length (workerPool s)" "onmessage (workerPool s ! k) = Some imgId"
    "\<not> aborted s" "imgId \<notin> set (pendingQueue s)" by simp_all
  show "map_of (individualProgress (handleMessage k imgId (ErrorMsg e) now s)) imgId
            = Some \<lparr>bp_imageId = imgId, bp_progress = Fin 0, bp_status = Error\<rparr>"
    by (rule handleMessage_error_recorded(1) [OF h'])
  show "map image_id (images (handleMessage k imgId (ErrorMsg e) now s)) = map image_id (images s)"
    by (rule handleMessage_error_recorded(2) [OF h'])
  fix img
  assume "img \<in> set (images (handleMessage k imgId (ErrorMsg e) now s))" "image_id img = imgId"
  with recorded_on_images [OF handleMessage_error_recorded(3) [OF h', of e now]]
  show "image_status img = ImageError" "image_error img = Some (workerErrorMessage e)" by blast+
next
  assume h: "imgId \<notin> set (pendingQueue s)"
  show "map_of (individualProgress (fileReadFailed k imgId message now s)) imgId
            = Some \<lparr>bp_imageId = imgId, bp_progress = Fin 0, bp_status = Error\<rparr>"
    by (rule fileReadFailed_recorded(1) [OF h])
  show "map image_id (images (fileReadFailed k imgId message now s)) = map image_id (images s)"
    by (rule fileReadFailed_recorded(2) [OF h])
  fix img
  assume "img \<in> set (images (fileReadFailed k imgId message now s))" "image_id img = imgId"
  with recorded_on_images [OF fileReadFailed_recorded(3) [OF h, of k message now]]
  show "image_status img = ImageError" "image_error img = Some (''Failed to read file: '' @ message)"
    by blast+
qed

theorem processBatch_empty_is_silent_witness:
  "0 < length (workerPool batchStarted) \<and> onmessage (workerPool batchStarted ! 0) = Some ''p''
   \<and> \<not> aborted batchStarted \<and> ''p'' \<notin> set (pendingQueue batchStarted)
   \<and> map_of (individualProgress (handleMessage 0 ''p'' (ErrorMsg (Some ''boom'')) 8 batchStarted)) ''p''
       = Some \<lparr>bp_imageId = ''p'', bp_progress = Fin 0, bp_status = Error\<rparr>
   \<and> batch_error (handleMessage 0 ''p'' (ErrorMsg (Some ''boom'')) 8 batchStarted) = None
   \<and> map image_id (images (handleMessage 0 ''p'' (ErrorMsg (Some ''boom'')) 8 batchStarted)) = [''p'', ''c'']
   \<and> image_error (hd (images (handleMessage 0 ''p'' (ErrorMsg (Some ''boom'')) 8 batchStarted)))
       = Some ''boom''
   \<and> map_of (individualProgress (fileReadFailed 0 ''p'' ''gone'' 8 batchStarted)) ''p''
       = Some \<lparr>bp_imageId = ''p'', bp_progress = Fin 0, bp_status = Error\<rparr>
   \<and> batch_error (fileReadFailed 0 ''p'' ''gone'' 8 batchStarted) = None
   \<and> map image_id (images (fileReadFailed 0 ''p'' ''gone'' 8 batchStarted)) = [''p'', ''c'']
   \<and> image_status (hd (images (fileReadFailed 0 ''p'' ''gone'' 8 batchStarted))) = ImageError
   \<and> image_error (hd (images (fileReadFailed 0 ''p'' ''gone'' 8 batchStarted)))
       = Some ''Failed to read file: gone''"
proof -
  have h: "0 < length (workerPool batchStarted) \<and> onmessage (workerPool batchStarted ! 0) = Some ''p''
           \<and> \<not> aborted batchStarted \<and> ''p'' \<notin> set (pendingQueue batchStarted)"
    by (simp add: batchStarted_eq aborted_def)
  have n: "batch_error batchStarted = None" by (simp add: batchStarted_eq)
  have i: "map image_id (images batchStarted) = [''p'', ''c'']" by (simp add: batchStarted_eq)
  note t = processBatch_empty_is_silent
    [of fullHD 8 batchStarted 0 "''p''" "Some ''boom''" "''gone''"]
  let ?m = "handleMessage 0 ''p'' (ErrorMsg (Some ''boom'')) 8 batchStarted"
  let ?f = "fileReadFailed 0 ''p'' ''gone'' 8 batchStarted"
  from t h have m1: "map_of (individualProgress ?m) ''p''
                       = Some \<lparr>bp_imageId = ''p'', bp_progress = Fin 0, bp_status = Error\<rparr>"
    and m2: "map image_id (images ?m) = map image_id (images batchStarted)"
    and m3: "\<forall>img \<in> set (images ?m). image_id img = ''p''
               \<longrightarrow> image_status img = ImageError \<and> image_error img = Some (workerErrorMessage (Some ''boom''))"
    and f1: "map_of (individualProgress ?f) ''p''
                       = Some \<lparr>bp_imageId = ''p'', bp_progress = Fin 0, bp_status = Error\<rparr>"
    and f2: "map image_id (images ?f) = map image_id (images batchStarted)"
    and f3: "\<forall>img \<in> set (images ?f). image_id img = ''p''
               \<longrightarrow> image_status img = ImageError \<and> image_error img = Some (''Failed to read file: '' @ ''gone'')"
    and b1: "batch_error ?m = batch_error batchStarted"
    and b2: "batch_error ?f = batch_error batchStarted"
    by blast+
  from m2 i obtain x xs where mx: "images ?m = x # xs" "image_id x = ''p''"
    by (cases "images ?m") auto
  with m3 have mh: "image_error (hd (images ?m)) = Some ''boom''"
    by (simp add: workerErrorMessage_def)
  from f2 i obtain y ys where fy: "images ?f = y # ys" "image_id y = ''p''"
    by (cases "images ?f") auto
  with f3 have fh: "image_status (hd (images ?f)) = ImageError"
    "image_error (hd (images ?f)) = Some ''Failed to read file: gone''"
    by simp_all
  show ?thesis using h n i m1 m2 mh f1 f2 fh b1 b2 by simp
qed

text \<open>
  The empty batch at a fresh hook: the call returns normally, and the state after it is
  the state before it, with no error set.
\<close>

theorem processBatch_empty_counterexample:
  "processBatch [] fullHD 7 (initialBatch twoImages) = Inr (initialBatch twoImages)
   \<and> batch_error (initialBatch twoImages) = None"
  by (simp add: processBatch_def initialBatch_def)


end
